theory Spec2Isabelle
  imports Main "HOL-Library.AList" "HOL-Library.Multiset" "HOL-Library.Word"
begin

section \<open>Data model\<close>

text \<open>
  A Go map is an association list with distinct keys: \<open>map_of\<close> reads it, \<open>AList.update\<close>
  stores into it (the value is replaced in place, a new key goes to the end). Reading a key
  that is absent yields the zero value of the value type, which \<open>index\<close> takes as its
  first argument: a nil pointer is \<open>None\<close>, the empty string is \<open>''''\<close>, the integer is 0.
  The counters of the source are Go \<open>int\<close>s that count records held in memory; they
  stay far below \<open>2 ^ 63\<close> and are unbounded integers here.
\<close>

type_synonym ('k, 'v) gomap = "('k \<times> 'v) list"

definition index :: "'v \<Rightarrow> ('k, 'v) gomap \<Rightarrow> 'k \<Rightarrow> 'v" where
  "index zero m k = (case map_of m k of None \<Rightarrow> zero | Some v \<Rightarrow> v)"

text \<open>The struct \<open>record\<close> of server.go; \<open>utcTime\<close> is Unix seconds and is only compared.\<close>

record op_record =
  subject :: string
  previous :: string
  operation :: string
  utcTime :: int

text \<open>The struct \<open>inMemoryERFServer\<close>; the mutex has no counterpart in a sequential model.\<close>

record inMemoryERFServer =
  records :: "op_record list"

definition NewInMemory :: inMemoryERFServer where
  "NewInMemory = \<lparr>records = []\<rparr>"

subsection \<open>stringStack\<close>

text \<open>The field \<open>s\<close> of the source is \<open>elems\<close> here; the top of the stack is the last element.\<close>

record stringStack =
  elems :: "string list"

definition push :: "string \<Rightarrow> stringStack \<Rightarrow> stringStack" where
  "push val st = st\<lparr>elems := elems st @ [val]\<rparr>"

text \<open>\<open>pop\<close> returns the pointer (\<open>None\<close> is nil) and the stack after the call.\<close>

definition pop :: "stringStack \<Rightarrow> string option \<times> stringStack" where
  "pop st =
     (let l = length (elems st)
      in if l = 0 then (None, st)
         else (Some (elems st ! (l - 1)), st\<lparr>elems := take (l - 1) (elems st)\<rparr>))"

subsection \<open>stringSet\<close>

text \<open>
  The field \<open>set\<close> of the source is \<open>sset\<close> here: a Go \<open>map[string]bool\<close>, nil when \<open>None\<close>.
\<close>

record stringSet =
  sset :: "(string \<rightharpoonup> bool) option"
  keys :: "string list"

definition newStringSet :: stringSet where
  "newStringSet = \<lparr>sset = Some Map.empty, keys = []\<rparr>"

definition add :: "string \<Rightarrow> stringSet \<Rightarrow> stringSet" where
  "add val st =
     (let st1 = (if sset st = None then st\<lparr>sset := Some Map.empty\<rparr> else st)
      in case sset st1 of
           None \<Rightarrow> st1
         | Some m \<Rightarrow>
             (if m val = None
              then st1\<lparr>sset := Some (m(val \<mapsto> True)), keys := keys st1 @ [val]\<rparr>
              else st1))"

definition values_of :: "stringSet \<Rightarrow> string list" where
  "values_of st = keys st"

subsection \<open>The lineage graph\<close>

text \<open>
  The values of both adjacency maps are pointers to string sets. Every set is created by
  \<open>newStringSet\<close> for one key and reached through that key only, so the model stores the
  set itself under the key: \<open>None\<close> is the nil pointer.
\<close>

type_synonym adjacency = "(string, stringSet option) gomap"

record adjacencyListPair =
  incoming :: adjacency
  outgoing :: adjacency

text \<open>
  The three statements the loop of \<open>adjacencyLists\<close> applies to a map \<open>m\<close> and a key \<open>k\<close>:
  \<open>m[k] = m[k]\<close> (\<open>register\<close>: the key exists afterwards, with the value it had or nil),
  \<open>if m[k] == nil { m[k] = newStringSet() }\<close> (\<open>ensure\<close>), and \<open>m[k].add(val)\<close>
  (\<open>add_at\<close>: the set stored under \<open>k\<close> is changed through its pointer; on a nil pointer
  the call would stop the program, which \<open>ensure\<close> before it excludes).
\<close>

definition register :: "string \<Rightarrow> adjacency \<Rightarrow> adjacency" where
  "register k m = AList.update k (index None m k) m"

definition ensure :: "string \<Rightarrow> adjacency \<Rightarrow> adjacency" where
  "ensure k m = (if index None m k = None then AList.update k (Some newStringSet) m else m)"

definition add_at :: "string \<Rightarrow> string \<Rightarrow> adjacency \<Rightarrow> adjacency" where
  "add_at k val m =
     (case index None m k of
        None \<Rightarrow> m
      | Some st \<Rightarrow> AList.update k (Some (add val st)) m)"

text \<open>The body of the loop of \<open>adjacencyLists\<close> for a record that passed the time filter.\<close>

definition addRecord :: "adjacencyListPair \<Rightarrow> op_record \<Rightarrow> adjacencyListPair" where
  "addRecord res r =
     (let sub = subject r;
          pre = previous r;
          inc1 = register sub (incoming res);
          out1 = register sub (outgoing res)
      in if pre \<noteq> [] then
           (let out2 = add_at pre sub (ensure pre out1);
                inc2 = add_at sub pre (ensure sub inc1)
            in \<lparr>incoming = register pre inc2, outgoing = out2\<rparr>)
         else \<lparr>incoming = inc1, outgoing = out1\<rparr>)"

text \<open>\<open>since\<close> is the pointer argument: \<open>None\<close> is nil, \<open>Some t\<close> carries \<open>since.UTC().Unix()\<close>.\<close>

definition skipped :: "int option \<Rightarrow> op_record \<Rightarrow> bool" where
  "skipped since r = (case since of None \<Rightarrow> False | Some sinceUTC \<Rightarrow> utcTime r < sinceUTC)"

text \<open>One pass of the loop of \<open>adjacencyLists\<close>: \<open>continue\<close> on a record before \<open>since\<close>.\<close>

definition admit :: "int option \<Rightarrow> adjacencyListPair \<Rightarrow> op_record \<Rightarrow> adjacencyListPair" where
  "admit since res r = (if skipped since r then res else addRecord res r)"

definition adjacencyLists :: "inMemoryERFServer \<Rightarrow> int option \<Rightarrow> adjacencyListPair" where
  "adjacencyLists srv since =
     foldl (admit since) \<lparr>incoming = [], outgoing = []\<rparr> (records srv)"

definition countSinks :: "adjacency \<Rightarrow> int" where
  "countSinks outgoingAdjacencyList =
     foldl (\<lambda>sinks (k, v). if v = None then sinks + 1 else sinks) 0 outgoingAdjacencyList"

definition TotalClients :: "inMemoryERFServer \<Rightarrow> int" where
  "TotalClients srv = countSinks (outgoing (adjacencyLists srv None))"

definition RecentClients :: "inMemoryERFServer \<Rightarrow> int \<Rightarrow> int" where
  "RecentClients srv since = countSinks (outgoing (adjacencyLists srv (Some since)))"

subsection \<open>Canonical client IDs\<close>

text \<open>A nil pointer that is dereferenced stops the program.\<close>

datatype panic = NilDereference

text \<open>
  The inner \<open>for x, child := range lists.outgoing[*n].values()\<close>: \<open>x\<close> is the position
  of \<open>child\<close>.
\<close>

fun pushChildren ::
  "string \<Rightarrow> nat \<Rightarrow> string list \<Rightarrow> stringStack \<times> stringStack \<Rightarrow> stringStack \<times> stringStack" where
  "pushChildren ident x [] (nodes, ids) = (nodes, ids)"
| "pushChildren ident x (child # rest) (nodes, ids) =
     pushChildren ident (Suc x) rest
       (push child nodes, if x = 0 then push ident ids else push child ids)"

text \<open>
  One pass through the body of \<open>for n := &node; n != nil; n = nodes.pop()\<close>, for the node
  \<open>n\<close>: the result is the panic of \<open>*id\<close> on a nil \<open>id\<close>, or the two stacks and the map
  after the body.
\<close>

definition visit ::
  "adjacency \<Rightarrow> string \<Rightarrow> stringStack \<Rightarrow> stringStack \<Rightarrow> (string, string) gomap \<Rightarrow>
     panic + (stringStack \<times> stringStack \<times> (string, string) gomap)" where
  "visit out n nodes ids result =
     (case pop ids of
        (None, ids1) \<Rightarrow> Inl NilDereference
      | (Some ident, ids1) \<Rightarrow>
          (let result1 = AList.update n ident result
           in case index None out n of
                None \<Rightarrow> Inr (nodes, ids1, result1)
              | Some st \<Rightarrow>
                  (case pushChildren ident 0 (values_of st) (nodes, ids1) of
                     (nodes2, ids2) \<Rightarrow> Inr (nodes2, ids2, result1))))"

text \<open>
  The loop itself. It has no bound in the source, so the model is a partial function:
  \<open>None\<close> means that the loop does not end.
\<close>

partial_function (option) traverse ::
  "adjacency \<Rightarrow> string \<Rightarrow> stringStack \<Rightarrow> stringStack \<Rightarrow> (string, string) gomap \<Rightarrow>
     (panic + (string, string) gomap) option" where
  "traverse out n nodes ids result =
     (case visit out n nodes ids result of
        Inl p \<Rightarrow> Some (Inl p)
      | Inr (nodes1, ids1, result1) \<Rightarrow>
          (case pop nodes1 of
             (None, nodes2) \<Rightarrow> Some (Inr result1)
           | (Some n', nodes2) \<Rightarrow> traverse out n' nodes2 ids1 result1))"

text \<open>
  The outer \<open>for node, incomingEdges := range lists.incoming\<close>, over the entries in the
  order the runtime yields them.
\<close>

fun rootsLoop ::
  "adjacency \<Rightarrow> (string \<times> stringSet option) list \<Rightarrow> (string, string) gomap \<Rightarrow>
     (panic + (string, string) gomap) option" where
  "rootsLoop out [] result = Some (Inr result)"
| "rootsLoop out ((node, incomingEdges) # es) result =
     (if incomingEdges = None then
        (case traverse out node \<lparr>elems = []\<rparr> (push node \<lparr>elems = []\<rparr>) result of
           None \<Rightarrow> None
         | Some (Inl p) \<Rightarrow> Some (Inl p)
         | Some (Inr result1) \<Rightarrow> rootsLoop out es result1)
      else rootsLoop out es result)"

text \<open>
  Go leaves the order of \<open>range\<close> over a map open. The model takes it as the parameter
  \<open>rng\<close>, which maps a Go map to the sequence of entries the loop sees; \<open>range_order\<close>
  says that the sequence holds every entry of the map once.
\<close>

definition range_order :: "(('k \<times> 'v) list \<Rightarrow> ('k \<times> 'v) list) \<Rightarrow> ('k, 'v) gomap \<Rightarrow> bool" where
  "range_order rng m = (mset (rng m) = mset m)"

definition mapCanonicalIDs ::
  "(adjacency \<Rightarrow> adjacency) \<Rightarrow> adjacencyListPair \<Rightarrow> (panic + (string, string) gomap) option" where
  "mapCanonicalIDs rng adj = rootsLoop (outgoing adj) (rng (incoming adj)) []"

subsection \<open>Operations by client\<close>

text \<open>The body of the loop of \<open>OperationsByClient\<close>; the inner maps are reached through their key only.\<close>

definition tally ::
  "(string, string) gomap \<Rightarrow> (string, (string, int) gomap) gomap \<Rightarrow> op_record \<Rightarrow>
     (string, (string, int) gomap) gomap" where
  "tally canonicalIDs result r =
     (let clientID = index [] canonicalIDs (subject r);
          result1 = (case map_of result clientID of
                       None \<Rightarrow> AList.update clientID [] result
                     | Some clientOperations \<Rightarrow> result);
          clientOperations = index [] result1 clientID
      in AList.update clientID
           (AList.update (operation r) (index 0 clientOperations (operation r) + 1) clientOperations)
           result1)"

definition OperationsByClient ::
  "(adjacency \<Rightarrow> adjacency) \<Rightarrow> inMemoryERFServer \<Rightarrow>
     (panic + (string, (string, int) gomap) gomap) option" where
  "OperationsByClient rng srv =
     (let adj = adjacencyLists srv None
      in case mapCanonicalIDs rng adj of
           None \<Rightarrow> None
         | Some (Inl p) \<Rightarrow> Some (Inl p)
         | Some (Inr canonicalIDs) \<Rightarrow> Some (Inr (foldl (tally canonicalIDs) [] (records srv))))"

subsection \<open>Append\<close>

text \<open>
  \<open>erf.ParseToken\<close> belongs to another module and is the parameter \<open>ParseToken\<close>: it
  returns its error, or the claims, whose \<open>Subject\<close> and \<open>Previous\<close> it has checked to be
  present. \<open>Wrap cause message\<close> is the value of \<open>errors.Wrap(err, message)\<close>.
\<close>

record ErfClaims =
  Subject :: string
  Previous :: string

datatype 'e wrapped = Wrap 'e string

definition Append ::
  "(8 word list \<Rightarrow> 'e + ErfClaims) \<Rightarrow> inMemoryERFServer \<Rightarrow> 8 word list \<Rightarrow> string \<Rightarrow> int \<Rightarrow>
     'e wrapped option \<times> inMemoryERFServer" where
  "Append ParseToken srv token operation_name unix_time =
     (case ParseToken token of
        Inl err \<Rightarrow> (Some (Wrap err ''failed to read token''), srv)
      | Inr claims \<Rightarrow>
          (None,
           srv\<lparr>records := records srv @
                  [\<lparr>subject = Subject claims, previous = Previous claims,
                    operation = operation_name, utcTime = unix_time\<rparr>]\<rparr>))"

section \<open>Notions of the specification\<close>

text \<open>
  The records that pass the time filter, the fingerprints that occur as a subject, those
  that some record names as its previous fingerprint (an empty \<open>previous\<close> names none), and
  those that have a predecessor.
\<close>

definition admitted :: "int option \<Rightarrow> op_record list \<Rightarrow> op_record list" where
  "admitted since rs = filter (\<lambda>r. \<not> skipped since r) rs"

definition subjects :: "op_record list \<Rightarrow> string set" where
  "subjects rs = subject ` set rs"

definition referenced :: "op_record list \<Rightarrow> string set" where
  "referenced rs = previous ` {r \<in> set rs. previous r \<noteq> []}"

definition successors :: "op_record list \<Rightarrow> string set" where
  "successors rs = subject ` {r \<in> set rs. previous r \<noteq> []}"

text \<open>The set behind a pointer after \<open>ensure\<close>: the one it had, or a new one.\<close>

definition set_or_new :: "stringSet option \<Rightarrow> stringSet" where
  "set_or_new p = (case p of None \<Rightarrow> newStringSet | Some st \<Rightarrow> st)"

text \<open>Logs used as examples.\<close>

definition entry :: "string \<Rightarrow> string \<Rightarrow> int \<Rightarrow> op_record" where
  "entry pre sub t = \<lparr>subject = sub, previous = pre, operation = ''op'', utcTime = t\<rparr>"

definition late_use_log :: inMemoryERFServer where
  "late_use_log = \<lparr>records = [entry ''X'' ''Y'' 1, entry [] ''X'' 2, entry ''W'' ''Y'' 2]\<rparr>"

definition chain_log :: inMemoryERFServer where
  "chain_log = \<lparr>records = [entry [] ''A'' 1, entry ''A'' ''B'' 1, entry ''B'' ''C'' 2]\<rparr>"

text \<open>The set stored under \<open>k\<close> holds \<open>v\<close>: the test \<open>add\<close> makes.\<close>

definition has_edge :: "string \<Rightarrow> string \<Rightarrow> adjacency \<Rightarrow> bool" where
  "has_edge k v m = (\<exists>st mp. index None m k = Some st \<and> sset st = Some mp \<and> mp v \<noteq> None)"

text \<open>The sum of the counts of one client over all operation names.\<close>

definition client_total :: "(string, (string, int) gomap) gomap \<Rightarrow> string \<Rightarrow> int" where
  "client_total result c = sum_list (map snd (index [] result c))"

text \<open>A stand-in for the token parser: it rejects the empty token.\<close>

definition sample_parser :: "8 word list \<Rightarrow> string + ErfClaims" where
  "sample_parser token =
     (if token = [] then Inl ''empty token'' else Inr \<lparr>Subject = ''D'', Previous = ''C''\<rparr>)"

section \<open>Notions for the traversal\<close>

text \<open>The successors of a node, in the order \<open>values\<close> returns them.\<close>

definition children :: "adjacency \<Rightarrow> string \<Rightarrow> string list" where
  "children out n = (case index None out n of None \<Rightarrow> [] | Some st \<Rightarrow> values_of st)"

text \<open>The IDs pushed for the children of a node with the ID \<open>ident\<close>.\<close>

definition inherit :: "string \<Rightarrow> string list \<Rightarrow> string list" where
  "inherit ident kids = (case kids of [] \<Rightarrow> [] | k # ks \<Rightarrow> ident # ks)"

definition expand :: "adjacency \<Rightarrow> string \<times> string \<Rightarrow> (string \<times> string) list" where
  "expand out p = zip (children out (fst p)) (inherit (snd p) (children out (fst p)))"

text \<open>
  The work of the loop that is still to do: the node in hand and the nodes on the stack,
  each with its ID. The node in hand is the last pair.
\<close>

definition pending :: "string \<Rightarrow> stringStack \<Rightarrow> stringStack \<Rightarrow> (string \<times> string) list" where
  "pending n nodes ids = zip (elems nodes @ [n]) (elems ids)"

text \<open>
  The IDs the branch rule allows for a node: a root has its own fingerprint, the first
  child of a node has the ID of the node, every other child has its own fingerprint.
\<close>

inductive lineage :: "adjacency \<Rightarrow> string set \<Rightarrow> string \<Rightarrow> string \<Rightarrow> bool"
  for out :: adjacency and roots :: "string set" where
  root: "v \<in> roots \<Longrightarrow> lineage out roots v v"
| first: "lineage out roots p c \<Longrightarrow> children out p = k # ks \<Longrightarrow> lineage out roots k c"
| branch: "lineage out roots p c \<Longrightarrow> children out p = k # ks \<Longrightarrow> z \<in> set ks \<Longrightarrow>
     lineage out roots z z"

text \<open>The two fields of a string set agree, and no key is listed twice.\<close>

definition wf_set :: "stringSet \<Rightarrow> bool" where
  "wf_set st = ((\<exists>mp. sset st = Some mp \<and> dom mp = set (keys st)) \<and> distinct (keys st))"

text \<open>Every set of an adjacency map is well formed.\<close>

definition wf_adj :: "adjacency \<Rightarrow> bool" where
  "wf_adj m = (\<forall>k st. index None m k = Some st \<longrightarrow> wf_set st)"

text \<open>
  What one record does to the list of the successors of \<open>p\<close>: the subject of a record
  that names \<open>p\<close> as its previous fingerprint goes to the end, unless it is listed.
\<close>

definition kids_step :: "string \<Rightarrow> string list \<Rightarrow> op_record \<Rightarrow> string list" where
  "kids_step p ks r =
     (if previous r \<noteq> [] \<and> previous r = p
      then (if subject r \<in> set ks then ks else ks @ [subject r])
      else ks)"

text \<open>The roots of a graph: the nodes whose entry in the incoming map is nil.\<close>

definition roots_of :: "adjacencyListPair \<Rightarrow> string set" where
  "roots_of g = {node. (node, None) \<in> set (incoming g)}"

text \<open>More example logs, and a rank for the acyclic ones.\<close>

definition cycle_log :: inMemoryERFServer where
  "cycle_log = \<lparr>records = [entry ''B'' ''A'' 1, entry ''A'' ''B'' 2]\<rparr>"

definition orphan_log :: inMemoryERFServer where
  "orphan_log = \<lparr>records = [entry ''?'' ''H'' 1]\<rparr>"


definition shared_log :: inMemoryERFServer where
  "shared_log = \<lparr>records = [entry [] ''X'' 1, entry [] ''W'' 1, entry ''W'' ''Z'' 1,
                             entry ''X'' ''Y'' 1, entry ''X'' ''Z'' 1]\<rparr>"

definition forest_log :: inMemoryERFServer where
  "forest_log = \<lparr>records = [entry [] ''X'' 1, entry ''X'' ''Y'' 1, entry ''X'' ''Z'' 2]\<rparr>"

definition sample_rank :: "string \<Rightarrow> nat" where
  "sample_rank s =
     (if s = ''A'' \<or> s = ''X'' then 0 else if s = ''B'' \<or> s = ''Y'' \<or> s = ''Z'' then 1 else 2)"

text \<open>The log that \<open>populateServer\<close> of the repository's tests builds, with the times 1, 2 and 3.\<close>

definition populateServer :: inMemoryERFServer where
  "populateServer = \<lparr>records =
     [entry [] ''A'' 1, entry [] ''A'' 1,
      entry ''A'' ''B'' 1, entry ''A'' ''B'' 1, entry ''A'' ''B'' 1,
      entry ''B'' ''C'' 1,
      entry ''C'' ''D'' 1, entry ''C'' ''D'' 1,
      entry ''D'' ''K'' 1, entry ''D'' ''E'' 2,
      entry ''B'' ''F'' 2, entry ''F'' ''G'' 2, entry ''G'' ''L'' 2, entry ''G'' ''M'' 3,
      entry ''?'' ''H'' 1, entry [] ''J'' 1, entry ''J'' ''I'' 1]\<rparr>"

text \<open>
  The descendants of a node, and its heirs: the node itself and, from heir to heir, the
  first successor of an heir when no record gives that successor another predecessor.
\<close>

inductive descendant :: "adjacency \<Rightarrow> string \<Rightarrow> string \<Rightarrow> bool"
  for out :: adjacency and p :: string where
  child: "k \<in> set (children out p) \<Longrightarrow> descendant out p k"
| below: "descendant out p d \<Longrightarrow> k \<in> set (children out d) \<Longrightarrow> descendant out p k"

inductive heir :: "inMemoryERFServer \<Rightarrow> string \<Rightarrow> string \<Rightarrow> bool"
  for srv :: inMemoryERFServer and p :: string where
  heir_self: "heir srv p p"
| heir_first: "heir srv p d \<Longrightarrow>
     children (outgoing (adjacencyLists srv None)) d = k # ks \<Longrightarrow>
     \<forall>r \<in> set (records srv). subject r = k \<and> previous r \<noteq> [] \<longrightarrow> previous r = d \<Longrightarrow>
     heir srv p k"

text \<open>No descendant of \<open>p\<close> has two different predecessors.\<close>

definition sole_below :: "inMemoryERFServer \<Rightarrow> string \<Rightarrow> bool" where
  "sole_below srv p =
     (\<forall>r \<in> set (records srv). \<forall>r' \<in> set (records srv).
        descendant (outgoing (adjacencyLists srv None)) p (subject r) \<and>
        subject r = subject r' \<and> previous r \<noteq> [] \<and> previous r' \<noteq> [] \<longrightarrow>
        previous r = previous r')"

text \<open>Two more logs, and a rank that grows along the links of the acyclic logs.\<close>

definition unseen_log :: inMemoryERFServer where
  "unseen_log = \<lparr>records = [entry ''?'' ''H'' 1, entry [] ''H'' 2, entry ''H'' ''I'' 3]\<rparr>"

definition self_loop_log :: inMemoryERFServer where
  "self_loop_log = \<lparr>records = [entry ''R'' ''B'' 1, entry ''B'' ''B'' 2]\<rparr>"

definition test_rank :: "string \<Rightarrow> nat" where
  "test_rank =
     index 0 [(''B'', 1), (''H'', 1), (''C'', 2), (''F'', 2), (''I'', 2), (''D'', 3), (''G'', 3),
              (''K'', 4), (''E'', 4), (''L'', 4), (''M'', 4)]"

section \<open>The adjacency lists\<close>

lemma index_update: "index z (AList.update k v m) k' = (if k' = k then v else index z m k')"
  by (simp add: index_def update_conv')

lemma keys_update: "fst ` set (AList.update k v m) = insert k (fst ` set m)"
  by (simp add: dom_update)

lemma index_Some_key: "index None m k = Some st \<Longrightarrow> k \<in> fst ` set m"
  by (auto simp: index_def split: option.splits dest: map_of_SomeD intro: rev_image_eqI)


lemma index_register: "index None (register k m) k' = index None m k'"
  by (simp add: register_def index_update)

lemma keys_register: "fst ` set (register k m) = insert k (fst ` set m)"
  by (simp add: register_def keys_update)

lemma index_ensure:
  "index None (ensure k m) k' = (if k' = k then Some (set_or_new (index None m k)) else index None m k')"
  by (cases "index None m k") (simp_all add: ensure_def index_update set_or_new_def)

lemma keys_ensure: "fst ` set (ensure k m) = insert k (fst ` set m)"
proof (cases "index None m k")
  case None
  then show ?thesis by (simp add: ensure_def keys_update)
next
  case (Some st)
  then show ?thesis using index_Some_key [OF Some] by (auto simp add: ensure_def)
qed

lemma index_add_at:
  "index None (add_at k v m) k' =
     (if k' = k then map_option (add v) (index None m k) else index None m k')"
  by (cases "index None m k") (simp_all add: add_at_def index_update)

lemma keys_add_at: "fst ` set (add_at k v m) = fst ` set m"
proof (cases "index None m k")
  case None
  then show ?thesis by (simp add: add_at_def)
next
  case (Some st)
  then show ?thesis using index_Some_key [OF Some] by (auto simp add: add_at_def keys_update)
qed

lemma outgoing_index:
  "index None (outgoing (addRecord res r)) k =
     (if previous r \<noteq> [] \<and> k = previous r
      then Some (add (subject r) (set_or_new (index None (outgoing res) (previous r))))
      else index None (outgoing res) k)"
  by (simp add: addRecord_def Let_def index_register index_add_at index_ensure)

lemma outgoing_keys:
  "fst ` set (outgoing (addRecord res r)) =
     fst ` set (outgoing res) \<union> {subject r} \<union> (if previous r \<noteq> [] then {previous r} else {})"
  by (auto simp add: addRecord_def Let_def keys_register keys_add_at keys_ensure)

lemma incoming_index:
  "index None (incoming (addRecord res r)) k =
     (if previous r \<noteq> [] \<and> k = subject r
      then Some (add (previous r) (set_or_new (index None (incoming res) (subject r))))
      else index None (incoming res) k)"
  by (simp add: addRecord_def Let_def index_register index_add_at index_ensure)

lemma incoming_keys:
  "fst ` set (incoming (addRecord res r)) =
     fst ` set (incoming res) \<union> {subject r} \<union> (if previous r \<noteq> [] then {previous r} else {})"
  by (auto simp add: addRecord_def Let_def keys_register keys_add_at keys_ensure)


lemma distinct_add_at: "distinct (map fst m) \<Longrightarrow> distinct (map fst (add_at k v m))"
  by (simp add: add_at_def distinct_update split: option.splits)

lemma distinct_addRecord:
  "distinct (map fst (incoming res)) \<Longrightarrow> distinct (map fst (incoming (addRecord res r)))"
  "distinct (map fst (outgoing res)) \<Longrightarrow> distinct (map fst (outgoing (addRecord res r)))"
  by (simp_all add: addRecord_def Let_def register_def ensure_def distinct_update distinct_add_at)

lemma foldl_admit_filter: "foldl (admit since) g rs = foldl addRecord g (admitted since rs)"
  by (induction rs arbitrary: g) (simp_all add: admit_def admitted_def)

lemma distinct_build:
  "distinct (map fst (incoming g)) \<Longrightarrow> distinct (map fst (incoming (foldl addRecord g rs)))"
  "distinct (map fst (outgoing g)) \<Longrightarrow> distinct (map fst (outgoing (foldl addRecord g rs)))"
  by (induction rs arbitrary: g) (simp_all add: distinct_addRecord)

lemma keys_build_out:
  "fst ` set (outgoing (foldl addRecord g rs)) = fst ` set (outgoing g) \<union> subjects rs \<union> referenced rs"
proof (induction rs arbitrary: g)
  case Nil
  show ?case by (simp add: subjects_def referenced_def)
next
  case (Cons r rs)
  show ?case unfolding foldl_Cons Cons.IH outgoing_keys
    by (auto simp add: subjects_def referenced_def)
qed

lemma keys_build_inc:
  "fst ` set (incoming (foldl addRecord g rs)) = fst ` set (incoming g) \<union> subjects rs \<union> referenced rs"
proof (induction rs arbitrary: g)
  case Nil
  show ?case by (simp add: subjects_def referenced_def)
next
  case (Cons r rs)
  show ?case unfolding foldl_Cons Cons.IH incoming_keys
    by (auto simp add: subjects_def referenced_def)
qed

lemma nil_build_out:
  "index None (outgoing (foldl addRecord g rs)) k = None \<longleftrightarrow>
     index None (outgoing g) k = None \<and> k \<notin> referenced rs"
proof (induction rs arbitrary: g)
  case Nil
  show ?case by (simp add: referenced_def)
next
  case (Cons r rs)
  show ?case unfolding foldl_Cons Cons.IH outgoing_index
    by (auto simp add: referenced_def)
qed

lemma nil_build_inc:
  "index None (incoming (foldl addRecord g rs)) k = None \<longleftrightarrow>
     index None (incoming g) k = None \<and> k \<notin> successors rs"
proof (induction rs arbitrary: g)
  case Nil
  show ?case by (simp add: successors_def)
next
  case (Cons r rs)
  show ?case unfolding foldl_Cons Cons.IH incoming_index
    by (auto simp add: successors_def)
qed

lemma countSinks_acc:
  "foldl (\<lambda>sinks (k, v). if v = None then sinks + 1 else sinks) a m =
     a + int (length (filter (\<lambda>kv. snd kv = None) m))"
  by (induction m arbitrary: a) (auto)

lemma countSinks_length: "countSinks m = int (length (filter (\<lambda>kv. snd kv = None) m))"
  by (simp add: countSinks_def countSinks_acc)

text \<open>
  The count does not depend on the order in which the loop of \<open>countSinks\<close> meets the
  entries of the map, so the model walks them in the order of the list.
\<close>

lemma countSinks_any_order: "mset es = mset m \<Longrightarrow> countSinks es = countSinks m"
proof -
  assume "mset es = mset m"
  then have "mset (filter (\<lambda>kv. snd kv = None) es) = mset (filter (\<lambda>kv. snd kv = None) m)"
    by simp
  then have "length (filter (\<lambda>kv. snd kv = None) es) = length (filter (\<lambda>kv. snd kv = None) m)"
    by (rule mset_eq_length)
  then show ?thesis by (simp add: countSinks_length)
qed

lemma index_None_iff:
  "k \<in> fst ` set m \<Longrightarrow> index None m k = None \<longleftrightarrow> map_of m k = Some None"
  by (auto simp add: index_def map_of_eq_None_iff split: option.splits)

lemma countSinks_card:
  assumes "distinct (map fst m)"
  shows "countSinks m = int (card {k \<in> fst ` set m. index None m k = None})"
proof -
  let ?f = "filter (\<lambda>kv. snd kv = None) m"
  have d: "distinct (map fst ?f)" using assms by (simp add: distinct_map_filter)
  have "fst ` set ?f = {k \<in> fst ` set m. index None m k = None}"
  proof (rule set_eqI)
    fix k
    show "k \<in> fst ` set ?f \<longleftrightarrow> k \<in> {k \<in> fst ` set m. index None m k = None}"
    proof
      assume "k \<in> fst ` set ?f"
      then obtain v where kv: "(k, v) \<in> set m" and v: "v = None" by auto
      from kv assms have "map_of m k = Some v" by simp
      with kv v show "k \<in> {k \<in> fst ` set m. index None m k = None}"
        by (auto simp add: index_def intro: rev_image_eqI)
    next
      assume a: "k \<in> {k \<in> fst ` set m. index None m k = None}"
      then have "map_of m k = Some None" using index_None_iff [of k m] by simp
      then have "(k, None) \<in> set m" by (rule map_of_SomeD)
      then show "k \<in> fst ` set ?f" by (auto intro: rev_image_eqI)
    qed
  qed
  then have "card {k \<in> fst ` set m. index None m k = None} = card (set (map fst ?f))" by simp
  also have "\<dots> = length (map fst ?f)" using d by (rule distinct_card)
  finally show ?thesis by (simp add: countSinks_length)
qed

lemma sinks_build:
  "{k \<in> fst ` set (outgoing (foldl addRecord \<lparr>incoming = [], outgoing = []\<rparr> rs)).
      index None (outgoing (foldl addRecord \<lparr>incoming = [], outgoing = []\<rparr> rs)) k = None}
   = subjects rs - referenced rs"
  unfolding keys_build_out nil_build_out by (auto simp add: index_def)

lemma countSinks_build:
  "countSinks (outgoing (adjacencyLists srv since)) =
     int (card (subjects (admitted since (records srv)) - referenced (admitted since (records srv))))"
proof -
  have "distinct (map fst (outgoing (foldl addRecord \<lparr>incoming = [], outgoing = []\<rparr> (admitted since (records srv)))))"
    by (rule distinct_build) simp
  then show ?thesis
    by (simp add: adjacencyLists_def foldl_admit_filter countSinks_card sinks_build)
qed

section \<open>Counting clients\<close>

lemmas graph_eval =
  adjacencyLists_def admit_def skipped_def addRecord_def register_def ensure_def add_at_def
  add_def newStringSet_def index_def entry_def Let_def

lemma index_Nil: "index z [] k = z"
  by (simp add: index_def)

lemma admitted_None: "admitted None rs = rs"
  by (simp add: admitted_def skipped_def)

lemma admitted_Some: "admitted (Some t) rs = filter (\<lambda>r. t \<le> utcTime r) rs"
  by (simp add: admitted_def skipped_def not_less)

lemma finite_subjects: "finite (subjects rs)"
  by (simp add: subjects_def)

text \<open>
  C2. \<open>TotalClients\<close> is the number of distinct fingerprints that appear in the log, as a
  subject or as the previous fingerprint of a record, and that no record names as its
  previous fingerprint; a record whose \<open>previous\<close> is empty names none. The count is the
  cardinality of a set, so every such fingerprint is counted once however many records
  it has.
\<close>

theorem TotalClients_unreferenced:
  "TotalClients srv =
     int (card ((subjects (records srv) \<union> referenced (records srv)) - referenced (records srv)))"
proof -
  have "(subjects (records srv) \<union> referenced (records srv)) - referenced (records srv)
          = subjects (records srv) - referenced (records srv)"
    by blast
  then show ?thesis
    by (simp add: TotalClients_def countSinks_build admitted_None)
qed

text \<open>
  C1, as stated, fails: \<open>RecentClients\<close> can grow with the threshold. In \<open>late_use_log\<close>
  the record that makes \<open>Y\<close> the successor of \<open>X\<close> is older than a record of \<open>X\<close>, so the
  later threshold drops the edge and keeps \<open>X\<close>, which becomes a sink.
\<close>

theorem RecentClients_not_antimono:
  "(1::int) \<le> 2 \<and> \<not> RecentClients late_use_log 2 \<le> RecentClients late_use_log 1"
  by (simp add: RecentClients_def countSinks_def late_use_log_def graph_eval)

text \<open>
  C1, amended. Let \<open>t1 \<le> t2\<close>, and let no record observed from \<open>t1\<close> up to, not
  including, \<open>t2\<close> name as its previous fingerprint the subject of a record observed at
  \<open>t2\<close> or later. Then \<open>RecentClients t2 \<le> RecentClients t1\<close>.
\<close>

theorem RecentClients_antimono:
  assumes "t1 \<le> t2"
    and "\<forall>r \<in> set (records srv).
           t1 \<le> utcTime r \<and> utcTime r < t2 \<and> previous r \<noteq> [] \<longrightarrow>
           previous r \<notin> subjects (admitted (Some t2) (records srv))"
  shows "RecentClients srv t2 \<le> RecentClients srv t1"
proof -
  let ?A1 = "admitted (Some t1) (records srv)" and ?A2 = "admitted (Some t2) (records srv)"
  have sub: "subjects ?A2 - referenced ?A2 \<subseteq> subjects ?A1 - referenced ?A1"
  proof
    fix k
    assume k: "k \<in> subjects ?A2 - referenced ?A2"
    then have "k \<in> subjects ?A1"
      using assms(1) by (auto simp add: subjects_def admitted_Some)
    moreover have "k \<notin> referenced ?A1"
    proof
      assume "k \<in> referenced ?A1"
      then obtain r where r: "r \<in> set (records srv)" "t1 \<le> utcTime r" "previous r \<noteq> []"
        "previous r = k"
        by (auto simp add: referenced_def admitted_Some)
      show False
      proof (cases "utcTime r < t2")
        case True
        with assms(2) r have "k \<notin> subjects ?A2" by blast
        with k show False by simp
      next
        case False
        with r have "k \<in> referenced ?A2" by (auto simp add: referenced_def admitted_Some)
        with k show False by simp
      qed
    qed
    ultimately show "k \<in> subjects ?A1 - referenced ?A1" by simp
  qed
  have "card (subjects ?A2 - referenced ?A2) \<le> card (subjects ?A1 - referenced ?A1)"
    by (rule card_mono [OF _ sub]) (simp add: finite_subjects)
  then show ?thesis by (simp add: RecentClients_def countSinks_build)
qed

theorem RecentClients_antimono_witness:
  "(1::int) \<le> 2 \<and> RecentClients chain_log 2 \<le> RecentClients chain_log 1"
proof -
  have h1: "(1::int) \<le> 2" by simp
  have h2: "\<forall>r \<in> set (records chain_log).
      1 \<le> utcTime r \<and> utcTime r < 2 \<and> previous r \<noteq> [] \<longrightarrow>
      previous r \<notin> subjects (admitted (Some 2) (records chain_log))"
    by (simp add: chain_log_def entry_def subjects_def admitted_def skipped_def)
  from h1 RecentClients_antimono [OF h1 h2] show ?thesis by blast
qed

text \<open>
  C8. The graph of \<open>RecentClients t\<close> is the graph of the records observed at \<open>t\<close> or
  later. A fingerprint that is the subject of such a record, and that only records
  observed before \<open>t\<close> name as their previous fingerprint, is a key of the outgoing map
  with a nil value there, and \<open>RecentClients t\<close> is the number of the entries with a nil
  value: the fingerprint is counted.
\<close>

theorem RecentClients_window:
  "adjacencyLists srv (Some t) =
     adjacencyLists (srv\<lparr>records := filter (\<lambda>r. t \<le> utcTime r) (records srv)\<rparr>) None \<and>
   RecentClients srv t =
     int (length (filter (\<lambda>kv. snd kv = None) (outgoing (adjacencyLists srv (Some t))))) \<and>
   (\<forall>r \<in> set (records srv).
      t \<le> utcTime r \<and>
      (\<forall>r' \<in> set (records srv).
         previous r' \<noteq> [] \<and> previous r' = subject r \<longrightarrow> utcTime r' < t) \<longrightarrow>
      (subject r, None) \<in> set (outgoing (adjacencyLists srv (Some t))))"
proof (intro conjI ballI impI)
  show "adjacencyLists srv (Some t) =
     adjacencyLists (srv\<lparr>records := filter (\<lambda>r. t \<le> utcTime r) (records srv)\<rparr>) None"
    by (simp add: adjacencyLists_def foldl_admit_filter admitted_None admitted_Some)
  show "RecentClients srv t =
     int (length (filter (\<lambda>kv. snd kv = None) (outgoing (adjacencyLists srv (Some t)))))"
    by (simp add: RecentClients_def countSinks_length)
next
  fix r
  assume r: "r \<in> set (records srv)"
    and h: "t \<le> utcTime r \<and>
      (\<forall>r' \<in> set (records srv).
         previous r' \<noteq> [] \<and> previous r' = subject r \<longrightarrow> utcTime r' < t)"
  let ?A = "admitted (Some t) (records srv)"
  let ?out = "outgoing (foldl addRecord \<lparr>incoming = [], outgoing = []\<rparr> ?A)"
  have key: "subject r \<in> fst ` set ?out"
    using r h by (auto simp add: keys_build_out subjects_def admitted_Some)
  have "subject r \<notin> referenced ?A"
    using h by (auto simp add: referenced_def admitted_Some)
  then have "index None ?out (subject r) = None"
    by (simp add: nil_build_out index_Nil)
  with key have "map_of ?out (subject r) = Some None"
    by (simp add: index_None_iff)
  then have "(subject r, None) \<in> set ?out" by (rule map_of_SomeD)
  then show "(subject r, None) \<in> set (outgoing (adjacencyLists srv (Some t)))"
    by (simp add: adjacencyLists_def foldl_admit_filter)
qed

theorem RecentClients_window_witness:
  "entry [] ''X'' 2 \<in> set (records late_use_log) \<and>
   (subject (entry [] ''X'' 2), None) \<in> set (outgoing (adjacencyLists late_use_log (Some 2)))"
proof -
  have h1: "entry [] ''X'' 2 \<in> set (records late_use_log)"
    by (simp add: late_use_log_def)
  have h2: "2 \<le> utcTime (entry [] ''X'' 2) \<and>
    (\<forall>r' \<in> set (records late_use_log).
       previous r' \<noteq> [] \<and> previous r' = subject (entry [] ''X'' 2) \<longrightarrow> utcTime r' < 2)"
    by (simp add: late_use_log_def entry_def)
  from RecentClients_window [of late_use_log 2] h1 h2 show ?thesis by blast
qed

section \<open>Appending\<close>

lemma add_idem: "sset st = Some mp \<Longrightarrow> mp v \<noteq> None \<Longrightarrow> add v st = st"
  by (auto simp add: add_def)

lemma add_has: "\<exists>mp. sset (add v st) = Some mp \<and> mp v \<noteq> None"
  by (cases "sset st") (auto simp add: add_def)

lemma add_keeps:
  "sset st = Some mp \<Longrightarrow> mp w \<noteq> None \<Longrightarrow> \<exists>mp'. sset (add v st) = Some mp' \<and> mp' w \<noteq> None"
  by (auto simp add: add_def)

lemma has_edge_out_new:
  "previous r \<noteq> [] \<Longrightarrow> has_edge (previous r) (subject r) (outgoing (addRecord g r))"
  using add_has by (simp add: has_edge_def outgoing_index)

lemma has_edge_inc_new:
  "previous r \<noteq> [] \<Longrightarrow> has_edge (subject r) (previous r) (incoming (addRecord g r))"
  using add_has by (simp add: has_edge_def incoming_index)

lemma has_edge_out_keeps:
  assumes "has_edge k v (outgoing g)"
  shows "has_edge k v (outgoing (addRecord g r))"
proof -
  from assms obtain st mp where st: "index None (outgoing g) k = Some st" "sset st = Some mp"
    "mp v \<noteq> None" by (auto simp add: has_edge_def)
  show ?thesis
  proof (cases "previous r \<noteq> [] \<and> k = previous r")
    case True
    with st have "index None (outgoing (addRecord g r)) k = Some (add (subject r) st)"
      by (simp add: outgoing_index set_or_new_def)
    with add_keeps [OF st(2,3)] show ?thesis by (simp add: has_edge_def)
  next
    case False
    with st show ?thesis by (auto simp add: has_edge_def outgoing_index)
  qed
qed

lemma has_edge_inc_keeps:
  assumes "has_edge k v (incoming g)"
  shows "has_edge k v (incoming (addRecord g r))"
proof -
  from assms obtain st mp where st: "index None (incoming g) k = Some st" "sset st = Some mp"
    "mp v \<noteq> None" by (auto simp add: has_edge_def)
  show ?thesis
  proof (cases "previous r \<noteq> [] \<and> k = subject r")
    case True
    with st have "index None (incoming (addRecord g r)) k = Some (add (previous r) st)"
      by (simp add: incoming_index set_or_new_def)
    with add_keeps [OF st(2,3)] show ?thesis by (simp add: has_edge_def)
  next
    case False
    with st show ?thesis by (auto simp add: has_edge_def incoming_index)
  qed
qed

lemma has_edge_build:
  assumes "r \<in> set rs" and "previous r \<noteq> []"
  shows "has_edge (previous r) (subject r) (outgoing (foldl addRecord g rs))"
    and "has_edge (subject r) (previous r) (incoming (foldl addRecord g rs))"
proof -
  have keep: "has_edge k v (outgoing g') \<Longrightarrow> has_edge k v (outgoing (foldl addRecord g' xs))"
    "has_edge k v (incoming g') \<Longrightarrow> has_edge k v (incoming (foldl addRecord g' xs))"
    for k v g' xs
    by (induction xs arbitrary: g') (simp_all add: has_edge_out_keeps has_edge_inc_keeps)
  from assms(1) obtain ys zs where rs: "rs = ys @ r # zs" by (auto simp add: in_set_conv_decomp)
  show "has_edge (previous r) (subject r) (outgoing (foldl addRecord g rs))"
    unfolding rs foldl_append foldl_Cons by (rule keep) (rule has_edge_out_new [OF assms(2)])
  show "has_edge (subject r) (previous r) (incoming (foldl addRecord g rs))"
    unfolding rs foldl_append foldl_Cons by (rule keep) (rule has_edge_inc_new [OF assms(2)])
qed

lemma register_idem:
  assumes "distinct (map fst m)" and "k \<in> fst ` set m"
  shows "register k m = m"
proof -
  from assms(2) obtain v where "map_of m k = Some v"
    by (cases "map_of m k") (auto simp add: map_of_eq_None_iff)
  then show ?thesis by (simp add: register_def index_def update_triv)
qed

lemma has_edge_key: "has_edge k v m \<Longrightarrow> k \<in> fst ` set m"
  by (auto simp add: has_edge_def dest: index_Some_key)

lemma ensure_idem: "has_edge k v m \<Longrightarrow> ensure k m = m"
  by (auto simp add: has_edge_def ensure_def)

lemma add_at_idem:
  assumes "has_edge k v m"
  shows "add_at k v m = m"
proof -
  from assms obtain st mp where st: "index None m k = Some st" "sset st = Some mp" "mp v \<noteq> None"
    by (auto simp add: has_edge_def)
  from st(1) have "map_of m k = Some (Some st)"
    by (auto simp add: index_def split: option.splits)
  with st show ?thesis by (simp add: add_at_def add_idem update_triv)
qed

lemma addRecord_idem:
  assumes "distinct (map fst (incoming g))" and "distinct (map fst (outgoing g))"
    and "subject r \<in> fst ` set (incoming g)" and "subject r \<in> fst ` set (outgoing g)"
    and "previous r \<noteq> [] \<Longrightarrow> previous r \<in> fst ` set (incoming g)"
    and "previous r \<noteq> [] \<Longrightarrow> has_edge (previous r) (subject r) (outgoing g)"
    and "previous r \<noteq> [] \<Longrightarrow> has_edge (subject r) (previous r) (incoming g)"
  shows "addRecord g r = g"
proof (cases "previous r = []")
  case True
  with assms(1-4) show ?thesis by (simp add: addRecord_def Let_def register_idem)
next
  case False
  from assms(5-7) False have h: "previous r \<in> fst ` set (incoming g)"
    "has_edge (previous r) (subject r) (outgoing g)"
    "has_edge (subject r) (previous r) (incoming g)" by simp_all
  from False assms(1-4) h show ?thesis
    by (simp add: addRecord_def Let_def register_idem ensure_idem [OF h(2)] ensure_idem [OF h(3)]
        add_at_idem)
qed

text \<open>
  C9. A record appended to the log with the subject and the previous fingerprint of a
  record the log already holds leaves the graph of the full history as it was: the
  registrations keep what is there and \<open>add\<close> finds the edge in the set. So
  \<open>TotalClients\<close> is unchanged.
\<close>

theorem duplicate_record_no_effect:
  assumes "r \<in> set (records srv)" and "subject r' = subject r" and "previous r' = previous r"
  shows "adjacencyLists (srv\<lparr>records := records srv @ [r']\<rparr>) None = adjacencyLists srv None \<and>
         TotalClients (srv\<lparr>records := records srv @ [r']\<rparr>) = TotalClients srv"
proof -
  let ?g = "foldl addRecord \<lparr>incoming = [], outgoing = []\<rparr> (records srv)"
  have d: "distinct (map fst (incoming ?g))" "distinct (map fst (outgoing ?g))"
    by (rule distinct_build, simp)+
  have s: "subject r' \<in> subjects (records srv)"
    using assms(1,2) by (auto simp add: subjects_def)
  have p: "previous r' \<in> referenced (records srv)" if "previous r' \<noteq> []"
    using that assms(1,3) by (auto simp add: referenced_def)
  have e: "has_edge (previous r') (subject r') (outgoing ?g)"
    "has_edge (subject r') (previous r') (incoming ?g)" if "previous r' \<noteq> []"
    using that assms(2,3) has_edge_build [OF assms(1)] by simp_all
  have "addRecord ?g r' = ?g"
    by (rule addRecord_idem [OF d]) (simp_all add: keys_build_inc keys_build_out s p e)
  then have "adjacencyLists (srv\<lparr>records := records srv @ [r']\<rparr>) None = adjacencyLists srv None"
    by (simp add: adjacencyLists_def foldl_admit_filter admitted_None admit_def skipped_def)
  then show ?thesis by (simp add: TotalClients_def)
qed

theorem duplicate_record_no_effect_witness:
  "entry ''A'' ''B'' 1 \<in> set (records chain_log) \<and>
   TotalClients (chain_log\<lparr>records := records chain_log @ [entry ''A'' ''B'' 7]\<rparr>)
     = TotalClients chain_log"
proof -
  have h: "entry ''A'' ''B'' 1 \<in> set (records chain_log)" by (simp add: chain_log_def)
  have "subject (entry ''A'' ''B'' 7) = subject (entry ''A'' ''B'' 1)"
    "previous (entry ''A'' ''B'' 7) = previous (entry ''A'' ''B'' 1)"
    by (simp_all add: entry_def)
  from duplicate_record_no_effect [OF h this] h show ?thesis by blast
qed

text \<open>
  C7. When the parser rejects the token, \<open>Append\<close> returns the parser's error wrapped
  with the message of the source and the server it was given, so the log and with it the
  three queries are as before. When the parser accepts the token, \<open>Append\<close> returns no
  error and the log with one more record at its end, made of the two claims, the
  operation and the time.
\<close>

theorem Append_cases:
  "(\<forall>err. ParseToken token = Inl err \<longrightarrow>
      Append ParseToken srv token opn t = (Some (Wrap err ''failed to read token''), srv) \<and>
      records (snd (Append ParseToken srv token opn t)) = records srv \<and>
      TotalClients (snd (Append ParseToken srv token opn t)) = TotalClients srv \<and>
      (\<forall>since. RecentClients (snd (Append ParseToken srv token opn t)) since
                 = RecentClients srv since) \<and>
      (\<forall>rng. OperationsByClient rng (snd (Append ParseToken srv token opn t))
               = OperationsByClient rng srv)) \<and>
   (\<forall>claims. ParseToken token = Inr claims \<longrightarrow>
      Append ParseToken srv token opn t =
        (None, srv\<lparr>records := records srv @
                 [\<lparr>subject = Subject claims, previous = Previous claims,
                   operation = opn, utcTime = t\<rparr>]\<rparr>))"
  by (simp add: Append_def)

theorem Append_cases_witness:
  "Append sample_parser chain_log [] ''op'' 9
     = (Some (Wrap ''empty token'' ''failed to read token''), chain_log) \<and>
   Append sample_parser chain_log [1] ''op'' 9
     = (None, chain_log\<lparr>records := records chain_log @
                 [\<lparr>subject = ''D'', previous = ''C'', operation = ''op'', utcTime = 9\<rparr>]\<rparr>)"
proof -
  have h1: "sample_parser [] = Inl ''empty token''" by (simp add: sample_parser_def)
  have h2: "sample_parser [1] = Inr \<lparr>Subject = ''D'', Previous = ''C''\<rparr>"
    by (simp add: sample_parser_def)
  from Append_cases [of sample_parser "[]" chain_log "''op''" 9] h1
  have a: "Append sample_parser chain_log [] ''op'' 9
     = (Some (Wrap ''empty token'' ''failed to read token''), chain_log)" by blast
  from Append_cases [of sample_parser "[1]" chain_log "''op''" 9] h2
  have "Append sample_parser chain_log [1] ''op'' 9
     = (None, chain_log\<lparr>records := records chain_log @
          [\<lparr>subject = Subject \<lparr>Subject = ''D'', Previous = ''C''\<rparr>,
            previous = Previous \<lparr>Subject = ''D'', Previous = ''C''\<rparr>,
            operation = ''op'', utcTime = 9\<rparr>]\<rparr>)" by blast
  with a show ?thesis by simp
qed

section \<open>Operations by client\<close>

lemmas walk_eval =
  mapCanonicalIDs_def traverse.simps visit_def pop_def push_def values_of_def

lemma index_Cons: "index z ((k, v) # m) k' = (if k = k' then v else index z m k')"
  by (simp add: index_def)

lemma sum_update_bump:
  "sum_list (map snd (AList.update k (index 0 ops k + 1) ops)) = sum_list (map snd ops) + (1::int)"
proof (induction ops)
  case Nil
  show ?case by (simp add: index_Nil)
next
  case (Cons p ops)
  obtain k' v where p: "p = (k', v)" by (cases p)
  show ?case using Cons.IH by (simp add: p index_Cons)
qed

lemma index_tally:
  "index [] (tally canonicalIDs result r) c =
     (if c = index [] canonicalIDs (subject r)
      then AList.update (operation r) (index 0 (index [] result c) (operation r) + 1)
             (index [] result c)
      else index [] result c)"
  by (cases "map_of result (index [] canonicalIDs (subject r))")
     (simp_all add: tally_def Let_def index_update, simp_all add: index_def)

lemma keys_tally:
  "fst ` set (tally canonicalIDs result r) =
     insert (index [] canonicalIDs (subject r)) (fst ` set result)"
  by (cases "map_of result (index [] canonicalIDs (subject r))")
     (simp_all add: tally_def Let_def keys_update)

lemma client_total_tally:
  "client_total (tally canonicalIDs result r) c =
     client_total result c + (if index [] canonicalIDs (subject r) = c then 1 else 0)"
  by (auto simp add: client_total_def index_tally sum_update_bump)

lemma client_total_foldl:
  "client_total (foldl (tally canonicalIDs) result rs) c =
     client_total result c
       + int (length (filter (\<lambda>r. index [] canonicalIDs (subject r) = c) rs))"
  by (induction rs arbitrary: result) (simp_all add: client_total_tally)

lemma keys_foldl_tally:
  "fst ` set (foldl (tally canonicalIDs) result rs) =
     fst ` set result \<union> (\<lambda>r. index [] canonicalIDs (subject r)) ` set rs"
  by (induction rs arbitrary: result) (auto simp add: keys_tally)

section \<open>The traversal loop\<close>

lemma pushChildren_elems:
  "pushChildren ident x kids (nodes, ids) =
     (nodes\<lparr>elems := elems nodes @ kids\<rparr>,
      ids\<lparr>elems := elems ids @ (if x = 0 then inherit ident kids else kids)\<rparr>)"
proof (induction kids arbitrary: x nodes ids)
  case Nil
  show ?case by (simp add: inherit_def)
next
  case (Cons k kids)
  show ?case by (simp add: Cons.IH push_def inherit_def)
qed

lemma pop_elems:
  "pop st = (if elems st = [] then (None, st)
             else (Some (last (elems st)), st\<lparr>elems := butlast (elems st)\<rparr>))"
  by (simp add: pop_def Let_def last_conv_nth butlast_conv_take)

lemma visit_elems:
  "visit out n nodes ids result =
     (if elems ids = [] then Inl NilDereference
      else Inr (nodes\<lparr>elems := elems nodes @ children out n\<rparr>,
                ids\<lparr>elems := butlast (elems ids) @ inherit (last (elems ids)) (children out n)\<rparr>,
                AList.update n (last (elems ids)) result))"
  by (cases "index None out n")
     (simp_all add: visit_def pop_elems Let_def children_def pushChildren_elems inherit_def)

lemma length_inherit: "length (inherit i kids) = length kids"
  by (cases kids) (simp_all add: inherit_def)

lemma fst_expand: "map fst (expand out p) = children out (fst p)"
  by (simp add: expand_def length_inherit)

text \<open>One pass of the loop in terms of the pending work.\<close>

lemma visit_pending:
  assumes "length (elems ids) = Suc (length (elems nodes))"
  obtains P i nodes1 ids1 where
    "pending n nodes ids = P @ [(n, i)]"
    "visit out n nodes ids result = Inr (nodes1, ids1, AList.update n i result)"
    "zip (elems nodes1) (elems ids1) = P @ expand out (n, i)"
    "length (elems ids1) = length (elems nodes1)"
proof -
  from assms have ne: "elems ids \<noteq> []" by auto
  let ?i = "last (elems ids)"
  let ?P = "zip (elems nodes) (butlast (elems ids))"
  let ?nodes1 = "nodes\<lparr>elems := elems nodes @ children out n\<rparr>"
  let ?ids1 = "ids\<lparr>elems := butlast (elems ids) @ inherit ?i (children out n)\<rparr>"
  have len: "length (butlast (elems ids)) = length (elems nodes)" using assms by simp
  have "elems ids = butlast (elems ids) @ [?i]" using ne by simp
  then have "pending n nodes ids = zip (elems nodes @ [n]) (butlast (elems ids) @ [?i])"
    by (simp add: pending_def)
  also have "\<dots> = ?P @ [(n, ?i)]" using len by simp
  finally have 1: "pending n nodes ids = ?P @ [(n, ?i)]" .
  have 2: "visit out n nodes ids result = Inr (?nodes1, ?ids1, AList.update n ?i result)"
    using ne by (simp add: visit_elems)
  have 3: "zip (elems ?nodes1) (elems ?ids1) = ?P @ expand out (n, ?i)"
    using len by (simp add: expand_def)
  have 4: "length (elems ?ids1) = length (elems ?nodes1)"
    using len by (simp add: length_inherit)
  from 1 2 3 4 show thesis by (rule that)
qed

lemma pop_pending:
  assumes "length (elems ids1) = length (elems nodes1)"
    and "pop nodes1 = (Some n', nodes2)"
  shows "pending n' nodes2 ids1 = zip (elems nodes1) (elems ids1)"
    and "length (elems ids1) = Suc (length (elems nodes2))"
proof -
  from assms(2) have ne: "elems nodes1 \<noteq> []" and n': "n' = last (elems nodes1)"
    and e2: "elems nodes2 = butlast (elems nodes1)"
    by (auto simp add: pop_elems split: if_splits)
  from ne have "elems nodes2 @ [n'] = elems nodes1" by (simp add: n' e2)
  then show "pending n' nodes2 ids1 = zip (elems nodes1) (elems ids1)"
    by (simp add: pending_def)
  from ne assms(1) show "length (elems ids1) = Suc (length (elems nodes2))"
    by (simp add: e2)
qed

lemma pop_None: "pop nodes1 = (None, nodes2) \<Longrightarrow> elems nodes1 = []"
  by (auto simp add: pop_elems split: if_splits)

text \<open>
  The invariant rule: a property of the pending work and the map that every pass keeps
  holds, with no work pending, for the map the loop returns.
\<close>

lemma traverse_rule:
  assumes run: "traverse out n nodes ids result = Some y"
    and sync: "length (elems ids) = Suc (length (elems nodes))"
    and inv: "I (pending n nodes ids) result"
    and step: "\<And>P n i result. I (P @ [(n, i)]) result \<Longrightarrow>
                 I (P @ expand out (n, i)) (AList.update n i result)"
  shows "\<exists>r. y = Inr r \<and> I [] r"
proof -
  define Q where "Q = (\<lambda>out' n nodes ids result (y :: panic + (string, string) gomap).
      out' = out \<longrightarrow> length (elems ids) = Suc (length (elems nodes)) \<longrightarrow>
      I (pending n nodes ids) result \<longrightarrow> (\<exists>r. y = Inr r \<and> I [] r))"
  have "Q out n nodes ids result y"
  proof (rule traverse.raw_induct [where P = Q, OF _ run])
    fix trav out' n nodes ids result y
    assume IH: "\<And>out n nodes ids result y.
        trav out n nodes ids result = Some y \<Longrightarrow> Q out n nodes ids result y"
      and body: "(case visit out' n nodes ids result of
         Inl p \<Rightarrow> Some (Inl p)
       | Inr (nodes1, ids1, result1) \<Rightarrow>
           (case pop nodes1 of
              (None, nodes2) \<Rightarrow> Some (Inr result1)
            | (Some n', nodes2) \<Rightarrow> trav out' n' nodes2 ids1 result1)) = Some y"
    show "Q out' n nodes ids result y"
      unfolding Q_def
    proof (intro impI)
      assume eq: "out' = out"
        and sy: "length (elems ids) = Suc (length (elems nodes))"
        and iv: "I (pending n nodes ids) result"
      from visit_pending [OF sy, of n out result] obtain P i nodes1 ids1 where
        p: "pending n nodes ids = P @ [(n, i)]"
        and v: "visit out n nodes ids result = Inr (nodes1, ids1, AList.update n i result)"
        and z: "zip (elems nodes1) (elems ids1) = P @ expand out (n, i)"
        and l: "length (elems ids1) = length (elems nodes1)"
        by blast
      from iv step have iv1: "I (P @ expand out (n, i)) (AList.update n i result)"
        by (simp add: p)
      obtain a nodes2 where po: "pop nodes1 = (a, nodes2)" by (cases "pop nodes1")
      show "\<exists>r. y = Inr r \<and> I [] r"
      proof (cases a)
        case None
        with po have "elems nodes1 = []" by (simp add: pop_None)
        with z have "P @ expand out (n, i) = []" by simp
        moreover from body v po None have "y = Inr (AList.update n i result)"
          by (simp add: eq)
        ultimately show ?thesis using iv1 by simp
      next
        case (Some n')
        with body v po have r: "trav out n' nodes2 ids1 (AList.update n i result) = Some y"
          by (simp add: eq)
        from po Some have po': "pop nodes1 = (Some n', nodes2)" by simp
        from pop_pending [OF l po'] z iv1
        have "length (elems ids1) = Suc (length (elems nodes2))"
          and "I (pending n' nodes2 ids1) (AList.update n i result)" by simp_all
        with IH [OF r] show ?thesis by (simp add: Q_def)
      qed
    qed
  qed
  with sync inv show ?thesis by (simp add: Q_def)
qed

text \<open>
  The termination rule: when every pass makes the pending work smaller in a well-founded
  order, the loop ends.
\<close>

lemma traverse_terminates:
  assumes wf: "wf R"
    and sync: "length (elems ids) = Suc (length (elems nodes))"
    and inv: "J (pending n nodes ids)"
    and step: "\<And>P n i. J (P @ [(n, i)]) \<Longrightarrow>
                 J (P @ expand out (n, i)) \<and> (P @ expand out (n, i), P @ [(n, i)]) \<in> R"
  shows "\<exists>y. traverse out n nodes ids result = Some y"
proof -
  have "\<forall>n nodes ids result. pending n nodes ids = X \<longrightarrow>
          length (elems ids) = Suc (length (elems nodes)) \<longrightarrow> J X \<longrightarrow>
          (\<exists>y. traverse out n nodes ids result = Some y)" for X
    using wf
  proof (induction X rule: wf_induct_rule)
    case (less X)
    show ?case
    proof (intro allI impI)
      fix n nodes ids result
      assume px: "pending n nodes ids = X"
        and sy: "length (elems ids) = Suc (length (elems nodes))"
        and j: "J X"
      from visit_pending [OF sy, of n out result] obtain P i nodes1 ids1 where
        p: "pending n nodes ids = P @ [(n, i)]"
        and v: "visit out n nodes ids result = Inr (nodes1, ids1, AList.update n i result)"
        and z: "zip (elems nodes1) (elems ids1) = P @ expand out (n, i)"
        and l: "length (elems ids1) = length (elems nodes1)"
        by blast
      from step [of P n i] j px p
      have j1: "J (P @ expand out (n, i))" and dec: "(P @ expand out (n, i), X) \<in> R"
        by simp_all
      obtain a nodes2 where po: "pop nodes1 = (a, nodes2)" by (cases "pop nodes1")
      show "\<exists>y. traverse out n nodes ids result = Some y"
      proof (cases a)
        case None
        with v po show ?thesis by (subst traverse.simps) simp
      next
        case (Some n')
        with po have po': "pop nodes1 = (Some n', nodes2)" by simp
        from pop_pending [OF l po'] z
        have "pending n' nodes2 ids1 = P @ expand out (n, i)"
          and "length (elems ids1) = Suc (length (elems nodes2))" by simp_all
        with less.IH [OF dec] j1
        have "\<exists>y. traverse out n' nodes2 ids1 (AList.update n i result) = Some y" by blast
        with v po' show ?thesis by (subst traverse.simps) simp
      qed
    qed
  qed
  with sync inv show ?thesis by blast
qed

lemma pending_root: "pending node \<lparr>elems = []\<rparr> (push node \<lparr>elems = []\<rparr>) = [(node, node)]"
  by (simp add: pending_def push_def)

lemma sync_root:
  "length (elems (push node \<lparr>elems = []\<rparr>)) = Suc (length (elems \<lparr>elems = []\<rparr>))"
  by (simp add: push_def)

lemma traverse_root_rule:
  assumes "traverse out node \<lparr>elems = []\<rparr> (push node \<lparr>elems = []\<rparr>) result = Some y"
    and "I [(node, node)] result"
    and "\<And>P n i result. I (P @ [(n, i)]) result \<Longrightarrow>
           I (P @ expand out (n, i)) (AList.update n i result)"
  shows "\<exists>r. y = Inr r \<and> I [] r"
  by (rule traverse_rule [OF assms(1) sync_root]) (simp_all add: pending_root assms(2,3))

text \<open>The invariant rule for the loop over the roots.\<close>

lemma rootsLoop_rule:
  assumes "rootsLoop out es result = Some y"
    and "K result"
    and start: "\<And>node result. (node, None) \<in> set es \<Longrightarrow> K result \<Longrightarrow> I [(node, node)] result"
    and step: "\<And>P n i result. I (P @ [(n, i)]) result \<Longrightarrow>
           I (P @ expand out (n, i)) (AList.update n i result)"
    and finish: "\<And>result. I [] result \<Longrightarrow> K result"
  shows "\<exists>r. y = Inr r \<and> K r"
  using assms(1-3)
proof (induction es arbitrary: result)
  case Nil
  then show ?case by auto
next
  case (Cons e es)
  obtain node edges where e: "e = (node, edges)" by (cases e)
  show ?case
  proof (cases edges)
    case (Some st)
    with Cons.prems e have "rootsLoop out es result = Some y" by simp
    from Cons.IH [OF this Cons.prems(2)] Cons.prems(3) show ?thesis by simp
  next
    case None
    with Cons.prems(1) e obtain y1 where
      t: "traverse out node \<lparr>elems = []\<rparr> (push node \<lparr>elems = []\<rparr>) result = Some y1"
      by (auto split: option.splits)
    from Cons.prems(2,3) e None have "I [(node, node)] result" by simp
    from traverse_root_rule [where I = I, OF t this step] obtain r1 where
      r1: "y1 = Inr r1" "I [] r1" by blast
    with Cons.prems(1) e None t have "rootsLoop out es r1 = Some y" by simp
    from Cons.IH [OF this finish [OF r1(2)]] Cons.prems(3) show ?thesis by simp
  qed
qed

text \<open>
  The two stacks grow and shrink together, so \<open>ids.pop()\<close> never returns nil where the
  loop dereferences it: the resolution does not panic.
\<close>

lemma mapCanonicalIDs_no_panic: "mapCanonicalIDs rng adj \<noteq> Some (Inl p)"
proof
  assume "mapCanonicalIDs rng adj = Some (Inl p)"
  then have run: "rootsLoop (outgoing adj) (rng (incoming adj)) [] = Some (Inl p)"
    by (simp add: mapCanonicalIDs_def)
  let ?K = "\<lambda>res :: (string, string) gomap. True"
  let ?I = "\<lambda>(P :: (string \<times> string) list) (res :: (string, string) gomap). True"
  have "\<exists>r. (Inl p :: panic + (string, string) gomap) = Inr r \<and> ?K r"
    by (rule rootsLoop_rule [where K = ?K and I = ?I, OF run]) simp_all
  then show False by simp
qed

lemma keys_update_mono: "fst ` set m \<subseteq> fst ` set (AList.update k v m)"
  by (auto simp add: keys_update)

lemma rootsLoop_keys_mono:
  assumes "rootsLoop out es result = Some (Inr r)"
  shows "fst ` set result \<subseteq> fst ` set r"
proof -
  let ?K = "\<lambda>res :: (string, string) gomap. fst ` set result \<subseteq> fst ` set res"
  let ?I = "\<lambda>(P :: (string \<times> string) list) res :: (string, string) gomap.
              fst ` set result \<subseteq> fst ` set res"
  have "\<exists>r'. (Inr r :: panic + (string, string) gomap) = Inr r' \<and> ?K r'"
    by (rule rootsLoop_rule [where I = ?I and K = ?K, OF assms])
       (auto simp add: keys_update)
  then show ?thesis by simp
qed

lemma rootsLoop_roots:
  assumes "rootsLoop out es result = Some (Inr r)" and "(node, None) \<in> set es"
  shows "node \<in> fst ` set r"
  using assms
proof (induction es arbitrary: result)
  case Nil
  then show ?case by simp
next
  case (Cons e es)
  obtain node' edges where e: "e = (node', edges)" by (cases e)
  show ?case
  proof (cases edges)
    case (Some st)
    with Cons.prems e have "rootsLoop out es result = Some (Inr r)" "(node, None) \<in> set es"
      by simp_all
    then show ?thesis by (rule Cons.IH)
  next
    case None
    with Cons.prems(1) e obtain y1 where
      t: "traverse out node' \<lparr>elems = []\<rparr> (push node' \<lparr>elems = []\<rparr>) result = Some y1"
      by (auto split: option.splits)
    let ?I = "\<lambda>(P :: (string \<times> string) list) res :: (string, string) gomap.
                node' \<in> fst ` set res \<or> node' \<in> fst ` set P"
    have "\<exists>r1. y1 = Inr r1 \<and> ?I [] r1"
      by (rule traverse_root_rule [where I = ?I, OF t]) (auto simp add: keys_update)
    then obtain r1 where r1: "y1 = Inr r1" "node' \<in> fst ` set r1" by auto
    with Cons.prems(1) e None t have rest: "rootsLoop out es r1 = Some (Inr r)" by simp
    show ?thesis
    proof (cases "node = node'")
      case True
      with r1(2) rootsLoop_keys_mono [OF rest] show ?thesis by blast
    next
      case False
      with Cons.prems(2) e have "(node, None) \<in> set es" by simp
      with rest show ?thesis by (rule Cons.IH)
    qed
  qed
qed

text \<open>The loop over the roots ends when the traversal from every root does.\<close>

lemma rootsLoop_terminates:
  assumes "\<And>node result. (node, None) \<in> set es \<Longrightarrow>
             \<exists>y. traverse out node \<lparr>elems = []\<rparr> (push node \<lparr>elems = []\<rparr>) result = Some y"
  shows "\<exists>y. rootsLoop out es result = Some y"
  using assms
proof (induction es arbitrary: result)
  case Nil
  show ?case by simp
next
  case (Cons e es)
  obtain node edges where e: "e = (node, edges)" by (cases e)
  have rest: "\<exists>y. rootsLoop out es res = Some y" for res
    by (rule Cons.IH) (simp add: Cons.prems)
  show ?case
  proof (cases edges)
    case (Some st)
    with e rest show ?thesis by simp
  next
    case None
    with Cons.prems [of node result] e obtain y1 where
      t: "traverse out node \<lparr>elems = []\<rparr> (push node \<lparr>elems = []\<rparr>) result = Some y1" by auto
    show ?thesis
    proof (cases y1)
      case (Inl p)
      with e None t show ?thesis by simp
    next
      case (Inr r1)
      with e None t rest [of r1] show ?thesis by simp
    qed
  qed
qed

text \<open>
  A rank that grows along every edge and is bounded on the successors makes the pending
  work smaller with every pass, in the multiset order of the distances to the bound.
\<close>

lemma traverse_terminates_ranked:
  assumes edge: "\<And>n c. c \<in> set (children out n) \<Longrightarrow> rk n < rk c \<and> rk c \<le> (B::nat)"
    and sync: "length (elems ids) = Suc (length (elems nodes))"
  shows "\<exists>y. traverse out n nodes ids result = Some y"
proof -
  let ?h = "\<lambda>p :: string \<times> string. Suc B - rk (fst p)"
  let ?R = "inv_image (mult {(a :: nat, b). a < b}) (\<lambda>P. mset (map ?h P))"
  have wf: "wf ?R"
    by (intro wf_inv_image wf_mult) (rule wf_less)
  show ?thesis
  proof (rule traverse_terminates [where J = "\<lambda>P. True" and R = ?R, OF wf sync])
    fix P :: "(string \<times> string) list" and n i
    have "\<forall>k \<in> set_mset (mset (map ?h (expand out (n, i)))).
            \<exists>j \<in> set_mset {#?h (n, i)#}. (k, j) \<in> {(a, b). a < b}"
    proof
      fix k
      assume "k \<in> set_mset (mset (map ?h (expand out (n, i))))"
      then obtain p where p: "p \<in> set (expand out (n, i))" and k: "k = ?h p" by auto
      from p have "fst p \<in> set (map fst (expand out (n, i)))" by simp
      then have "fst p \<in> set (children out n)" by (simp add: fst_expand)
      from edge [OF this] have "?h p < ?h (n, i)" by (simp del: Suc_diff_le) arith
      with k show "\<exists>j \<in> set_mset {#?h (n, i)#}. (k, j) \<in> {(a, b). a < b}" by simp
    qed
    then have "(mset (map ?h P) + mset (map ?h (expand out (n, i))),
                mset (map ?h P) + {#?h (n, i)#}) \<in> mult {(a, b). a < b}"
      by (intro one_step_implies_mult) simp_all
    then show "True \<and> (P @ expand out (n, i), P @ [(n, i)]) \<in> ?R" by simp
  qed simp
qed

section \<open>The edges of the graph\<close>

lemma wf_set_new: "wf_set newStringSet"
  by (simp add: wf_set_def newStringSet_def)

lemma keys_add:
  assumes "wf_set st"
  shows "keys (add v st) = (if v \<in> set (keys st) then keys st else keys st @ [v])"
proof -
  from assms obtain mp where mp: "sset st = Some mp" "dom mp = set (keys st)"
    by (auto simp add: wf_set_def)
  show ?thesis
  proof (cases "mp v")
    case None
    with mp have "v \<notin> set (keys st)" by auto
    with mp None show ?thesis by (simp add: add_def)
  next
    case (Some b)
    with mp have "v \<in> set (keys st)" by auto
    with mp Some show ?thesis by (simp add: add_def)
  qed
qed

lemma wf_set_add:
  assumes "wf_set st"
  shows "wf_set (add v st)"
proof -
  from assms obtain mp where mp: "sset st = Some mp" "dom mp = set (keys st)"
    and d: "distinct (keys st)"
    by (auto simp add: wf_set_def)
  show ?thesis
  proof (cases "mp v")
    case None
    with mp have "v \<notin> set (keys st)" by auto
    with mp None d show ?thesis by (simp add: add_def wf_set_def)
  next
    case (Some b)
    with mp d show ?thesis by (simp add: add_def wf_set_def)
  qed
qed

lemma wf_set_or_new: "wf_adj m \<Longrightarrow> wf_set (set_or_new (index None m k))"
  by (cases "index None m k") (simp_all add: set_or_new_def wf_set_new wf_adj_def)

lemma wf_adj_addRecord:
  "wf_adj (outgoing g) \<Longrightarrow> wf_adj (outgoing (addRecord g r))"
  "wf_adj (incoming g) \<Longrightarrow> wf_adj (incoming (addRecord g r))"
  using wf_set_add [OF wf_set_or_new]
  by (auto simp add: wf_adj_def outgoing_index incoming_index split: if_splits)

lemma keys_set_or_new: "keys (set_or_new (index None m k)) = children m k"
  by (cases "index None m k") (simp_all add: set_or_new_def children_def newStringSet_def values_of_def)

lemma children_addRecord:
  assumes "wf_adj (outgoing g)"
  shows "children (outgoing (addRecord g r)) p = kids_step p (children (outgoing g) p) r"
proof (cases "previous r \<noteq> [] \<and> p = previous r")
  case True
  then have "children (outgoing (addRecord g r)) p =
      keys (add (subject r) (set_or_new (index None (outgoing g) p)))"
    by (simp add: children_def outgoing_index values_of_def)
  also have "\<dots> = kids_step p (children (outgoing g) p) r"
    using True by (simp add: keys_add [OF wf_set_or_new [OF assms]] keys_set_or_new kids_step_def)
  finally show ?thesis .
next
  case False
  then have "index None (outgoing (addRecord g r)) p = index None (outgoing g) p"
    by (auto simp add: outgoing_index)
  with False show ?thesis by (auto simp add: children_def kids_step_def)
qed

lemma wf_adj_build: "wf_adj (outgoing g) \<Longrightarrow> wf_adj (outgoing (foldl addRecord g rs))"
  by (induction rs arbitrary: g) (simp_all add: wf_adj_addRecord)

lemma children_build:
  "wf_adj (outgoing g) \<Longrightarrow>
     children (outgoing (foldl addRecord g rs)) p = foldl (kids_step p) (children (outgoing g) p) rs"
  by (induction rs arbitrary: g) (simp_all add: wf_adj_addRecord children_addRecord)

lemma wf_adj_Nil: "wf_adj []"
  by (simp add: wf_adj_def index_Nil)

lemma children_Nil: "children [] p = []"
  by (simp add: children_def index_Nil)

lemma children_graph:
  "children (outgoing (adjacencyLists srv None)) p = foldl (kids_step p) [] (records srv)"
  using children_build [of "\<lparr>incoming = [], outgoing = []\<rparr>" "records srv" p]
  by (simp add: adjacencyLists_def foldl_admit_filter admitted_None wf_adj_Nil children_Nil)

lemma set_kids:
  "set (foldl (kids_step p) ks rs) =
     set ks \<union> subject ` {r \<in> set rs. previous r \<noteq> [] \<and> previous r = p}"
  by (induction rs arbitrary: ks) (auto simp add: kids_step_def)

lemma distinct_kids: "distinct ks \<Longrightarrow> distinct (foldl (kids_step p) ks rs)"
  by (induction rs arbitrary: ks) (simp_all add: kids_step_def)

lemma prefix_kids: "\<exists>ys. foldl (kids_step p) ks rs = ks @ ys"
proof (induction rs arbitrary: ks)
  case Nil
  show ?case by simp
next
  case (Cons r rs)
  from Cons.IH [of "kids_step p ks r"] obtain ys where
    ys: "foldl (kids_step p) (kids_step p ks r) rs = kids_step p ks r @ ys" by blast
  have "\<exists>zs. kids_step p ks r = ks @ zs" by (simp add: kids_step_def)
  then obtain zs where "kids_step p ks r = ks @ zs" by blast
  from ys \<open>kids_step p ks r = ks @ zs\<close>
  have "foldl (kids_step p) ks (r # rs) = ks @ (zs @ ys)" by simp
  then show ?case by blast
qed

text \<open>The successors of a fingerprint are the subjects of the records that name it.\<close>

lemma set_children_graph:
  "set (children (outgoing (adjacencyLists srv None)) p) =
     subject ` {r \<in> set (records srv). previous r \<noteq> [] \<and> previous r = p}"
  by (simp add: children_graph set_kids)

lemma distinct_children_graph: "distinct (children (outgoing (adjacencyLists srv None)) p)"
  by (simp add: children_graph distinct_kids)

text \<open>The first successor: the subject of the first record that names the fingerprint.\<close>

lemma first_child_graph:
  assumes "records srv = rs1 @ r # rs2" and "\<forall>x \<in> set rs1. previous x \<noteq> previous r"
    and "previous r \<noteq> []"
  shows "\<exists>ks. children (outgoing (adjacencyLists srv None)) (previous r) = subject r # ks"
proof -
  have "set (foldl (kids_step (previous r)) [] rs1) = {}"
    using assms(2) by (auto simp add: set_kids)
  then have "foldl (kids_step (previous r)) [] rs1 = []" by simp
  then have "foldl (kids_step (previous r)) [] (rs1 @ [r]) = [subject r]"
    using assms(3) by (simp add: kids_step_def)
  moreover from prefix_kids [of "previous r" "[subject r]" rs2] obtain ys where
    "foldl (kids_step (previous r)) [subject r] rs2 = [subject r] @ ys" by blast
  ultimately show ?thesis by (simp add: children_graph assms(1))
qed

text \<open>
  The roots: the entries of the incoming map with a nil value are the fingerprints of
  the log that are the subject of no record with a previous fingerprint.
\<close>

lemma roots_graph:
  "(node, None) \<in> set (incoming (adjacencyLists srv None)) \<longleftrightarrow>
     node \<in> subjects (records srv) \<union> referenced (records srv) \<and>
     node \<notin> successors (records srv)"
proof -
  let ?inc = "incoming (foldl addRecord \<lparr>incoming = [], outgoing = []\<rparr> (records srv))"
  have d: "distinct (map fst ?inc)" by (rule distinct_build) simp
  have "(node, None) \<in> set ?inc \<longleftrightarrow> map_of ?inc node = Some None"
    using d by simp
  also have "\<dots> \<longleftrightarrow> node \<in> fst ` set ?inc \<and> index None ?inc node = None"
    using index_None_iff [of node ?inc]
    by (auto simp add: index_def dest: map_of_SomeD intro: rev_image_eqI)
  also have "\<dots> \<longleftrightarrow> node \<in> subjects (records srv) \<union> referenced (records srv) \<and>
     node \<notin> successors (records srv)"
    by (simp add: keys_build_inc nil_build_inc index_Nil)
  finally show ?thesis
    by (simp add: adjacencyLists_def foldl_admit_filter admitted_None)
qed

lemma keys_incoming_graph:
  "fst ` set (incoming (adjacencyLists srv None)) =
     subjects (records srv) \<union> referenced (records srv)"
  by (simp add: adjacencyLists_def foldl_admit_filter admitted_None keys_build_inc)

lemma range_order_set: "range_order rng m \<Longrightarrow> set (rng m) = set m"
  unfolding range_order_def by (rule mset_eq_setD)

section \<open>The canonical IDs\<close>

lemma expand_lineage:
  assumes "lineage out roots n i" and "p \<in> set (expand out (n, i))"
  shows "lineage out roots (fst p) (snd p)"
proof (cases "children out n")
  case Nil
  with assms(2) show ?thesis by (simp add: expand_def)
next
  case (Cons k ks)
  with assms(2) have "p = (k, i) \<or> p \<in> set (zip ks ks)"
    by (simp add: expand_def inherit_def)
  then show ?thesis
  proof
    assume "p = (k, i)"
    with lineage.first [OF assms(1) Cons] show ?thesis by simp
  next
    assume "p \<in> set (zip ks ks)"
    then obtain z where "z \<in> set ks" "p = (z, z)" by (auto simp add: zip_same_conv_map)
    with lineage.branch [OF assms(1) Cons] show ?thesis by simp
  qed
qed

text \<open>Every ID in the map is one the branch rule allows.\<close>

lemma rootsLoop_sound:
  assumes "rootsLoop out es [] = Some y" and "\<And>node. (node, None) \<in> set es \<Longrightarrow> node \<in> roots"
  shows "\<exists>ids. y = Inr ids \<and> (\<forall>v c. map_of ids v = Some c \<longrightarrow> lineage out roots v c)"
proof -
  let ?K = "\<lambda>res :: (string, string) gomap. \<forall>v c. map_of res v = Some c \<longrightarrow> lineage out roots v c"
  let ?I = "\<lambda>(P :: (string \<times> string) list) res. ?K res \<and> (\<forall>p \<in> set P. lineage out roots (fst p) (snd p))"
  show ?thesis
  proof (rule rootsLoop_rule [where K = ?K and I = ?I, OF assms(1)])
    show "?K []" by simp
  next
    fix node result
    assume "(node, None) \<in> set es" and "?K result"
    with assms(2) lineage.root [of node roots out] show "?I [(node, node)] result" by simp
  next
    fix P n i result
    assume a: "?I (P @ [(n, i)]) result"
    then have n: "lineage out roots n i" by simp
    from a n have "?K (AList.update n i result)" by (simp add: update_conv')
    moreover from a expand_lineage [OF n]
    have "\<forall>p \<in> set (P @ expand out (n, i)). lineage out roots (fst p) (snd p)" by auto
    ultimately show "?I (P @ expand out (n, i)) (AList.update n i result)" by blast
  next
    fix result
    assume "?I [] result"
    then show "?K result" by simp
  qed
qed

text \<open>The keys of the map are closed under successors.\<close>

lemma rootsLoop_closed:
  assumes "rootsLoop out es [] = Some (Inr ids)"
  shows "\<forall>v \<in> fst ` set ids. set (children out v) \<subseteq> fst ` set ids"
proof -
  let ?K = "\<lambda>res :: (string, string) gomap.
              \<forall>v \<in> fst ` set res. set (children out v) \<subseteq> fst ` set res"
  let ?I = "\<lambda>(P :: (string \<times> string) list) res :: (string, string) gomap.
              \<forall>v \<in> fst ` set res. set (children out v) \<subseteq> fst ` set res \<union> fst ` set P"
  have "\<exists>r. (Inr ids :: panic + (string, string) gomap) = Inr r \<and> ?K r"
  proof (rule rootsLoop_rule [where K = ?K and I = ?I, OF assms])
    show "?K []" by simp
  next
    fix node result
    assume "?K result"
    then show "?I [(node, node)] result" by auto
  next
    fix P n i result
    assume a: "?I (P @ [(n, i)]) result"
    have e: "fst ` set (expand out (n, i)) = set (children out n)"
      using fst_expand [of out "(n, i)"] by (metis fst_conv set_map)
    show "?I (P @ expand out (n, i)) (AList.update n i result)"
    proof
      fix v
      assume "v \<in> fst ` set (AList.update n i result)"
      then have "v = n \<or> v \<in> fst ` set result" by (simp add: keys_update)
      then show "set (children out v) \<subseteq>
          fst ` set (AList.update n i result) \<union> fst ` set (P @ expand out (n, i))"
      proof
        assume "v = n"
        then show ?thesis using e by auto
      next
        assume "v \<in> fst ` set result"
        with a have "set (children out v) \<subseteq> fst ` set result \<union> fst ` set (P @ [(n, i)])"
          by blast
        then show ?thesis by (auto simp add: keys_update)
      qed
    qed
  next
    fix result
    assume "?I [] result"
    then show "?K result" by simp
  qed
  then show ?thesis by simp
qed


text \<open>
  With a rank that grows along every edge, every node that is a root or has a predecessor
  among the nodes is a key of the map.
\<close>

lemma rootsLoop_total:
  assumes run: "rootsLoop out es [] = Some (Inr ids)"
    and nodes: "\<And>v. v \<in> N \<Longrightarrow>
        (v, None) \<in> set es \<or> (\<exists>p \<in> N. v \<in> set (children out p) \<and> rk p < (rk v :: nat))"
  shows "N \<subseteq> fst ` set ids"
proof
  fix v
  assume "v \<in> N"
  then show "v \<in> fst ` set ids"
  proof (induction "rk v" arbitrary: v rule: less_induct)
    case less
    from nodes [OF less.prems] show ?case
    proof
      assume "(v, None) \<in> set es"
      with run show ?thesis by (rule rootsLoop_roots)
    next
      assume "\<exists>p \<in> N. v \<in> set (children out p) \<and> rk p < rk v"
      then obtain p where p: "p \<in> N" "v \<in> set (children out p)" "rk p < rk v" by blast
      from less.hyps [OF p(3) p(1)] have "p \<in> fst ` set ids" .
      with rootsLoop_closed [OF run] p(2) show ?thesis by blast
    qed
  qed
qed

lemma lineage_inv:
  assumes "lineage out roots v c"
  shows "(v \<in> roots \<and> c = v) \<or>
         (\<exists>p ks. lineage out roots p c \<and> children out p = v # ks) \<or>
         (\<exists>p d k ks. lineage out roots p d \<and> children out p = k # ks \<and> v \<in> set ks \<and> c = v)"
  using assms by (cases rule: lineage.cases) auto

text \<open>
  When no node has two predecessors, no node is listed twice among the successors of a
  node and no root has a predecessor, the branch rule allows one ID for a node.
\<close>

lemma lineage_fun:
  assumes dis: "\<And>p. distinct (children out p)"
    and uni: "\<And>k p p'. k \<in> set (children out p) \<Longrightarrow> k \<in> set (children out p') \<Longrightarrow> p = p'"
    and top: "\<And>v p. v \<in> roots \<Longrightarrow> v \<notin> set (children out p)"
    and "lineage out roots v c" and "lineage out roots v c'"
  shows "c = c'"
  using assms(4,5)
proof (induction arbitrary: c' rule: lineage.induct)
  case (root v)
  from lineage_inv [OF root.prems] top [OF root.hyps] show ?case
    by (metis list.set_intros(1,2))
next
  case (first p c k ks)
  have kp: "k \<in> set (children out p)" using first.hyps(2) by simp
  from lineage_inv [OF first.prems] show ?case
  proof (elim disjE exE conjE)
    assume "k \<in> roots"
    with top kp show ?thesis by blast
  next
    fix p' ks'
    assume l: "lineage out roots p' c'" and ch: "children out p' = k # ks'"
    from ch have "k \<in> set (children out p')" by simp
    with uni kp have "p' = p" by blast
    with l first.IH show ?thesis by simp
  next
    fix p' d k' ks'
    assume ch: "children out p' = k' # ks'" and m: "k \<in> set ks'"
    then have "k \<in> set (children out p')" by simp
    with uni kp have "p' = p" by blast
    with ch first.hyps(2) m dis [of p] show ?thesis by simp
  qed
next
  case (branch p c k ks z)
  have zp: "z \<in> set (children out p)" using branch.hyps by simp
  from lineage_inv [OF branch.prems] show ?case
  proof (elim disjE exE conjE)
    assume "z \<in> roots"
    with top zp show ?thesis by blast
  next
    fix p' ks'
    assume ch: "children out p' = z # ks'"
    then have "z \<in> set (children out p')" by simp
    with uni zp have "p' = p" by blast
    with ch branch.hyps dis [of p] show ?thesis by simp
  next
    assume "c' = z"
    then show ?thesis by simp
  qed
qed

section \<open>Resolution over a log\<close>

lemma range_order_id: "range_order id m"
  by (simp add: range_order_def)

lemma edge_record:
  assumes "c \<in> set (children (outgoing (adjacencyLists srv None)) p)"
  obtains r where "r \<in> set (records srv)" "subject r = c" "previous r = p" "p \<noteq> []"
  using assms by (auto simp add: set_children_graph)

lemma record_edge:
  "r \<in> set (records srv) \<Longrightarrow> previous r \<noteq> [] \<Longrightarrow>
     subject r \<in> set (children (outgoing (adjacencyLists srv None)) (previous r))"
  by (auto simp add: set_children_graph)

lemma root_not_child:
  assumes "v \<in> roots_of (adjacencyLists srv None)"
  shows "v \<notin> set (children (outgoing (adjacencyLists srv None)) p)"
proof
  assume "v \<in> set (children (outgoing (adjacencyLists srv None)) p)"
  then obtain r where "r \<in> set (records srv)" "subject r = v" "previous r \<noteq> []"
    by (auto elim: edge_record)
  then have "v \<in> successors (records srv)" by (auto simp add: successors_def)
  with assms show False by (simp add: roots_of_def roots_graph)
qed

text \<open>A log whose links grow in rank: the resolution ends from every root.\<close>

lemma resolve_terminates:
  assumes "\<forall>r \<in> set (records srv). previous r \<noteq> [] \<longrightarrow> rk (previous r) < (rk (subject r) :: nat)"
  shows "\<exists>y. rootsLoop (outgoing (adjacencyLists srv None)) es result = Some y"
proof (rule rootsLoop_terminates)
  fix node result
  let ?B = "Max (rk ` subjects (records srv))"
  show "\<exists>y. traverse (outgoing (adjacencyLists srv None)) node \<lparr>elems = []\<rparr>
               (push node \<lparr>elems = []\<rparr>) result = Some y"
  proof (rule traverse_terminates_ranked [where rk = rk and B = ?B, OF _ sync_root])
    fix n c
    assume "c \<in> set (children (outgoing (adjacencyLists srv None)) n)"
    then obtain r where r: "r \<in> set (records srv)" "subject r = c" "previous r = n" "n \<noteq> []"
      by (rule edge_record)
    with assms have "rk n < rk c" by auto
    moreover from r have "rk c \<in> rk ` subjects (records srv)" by (auto simp add: subjects_def)
    then have "rk c \<le> ?B" by (simp add: finite_subjects)
    ultimately show "rk n < rk c \<and> rk c \<le> ?B" by simp
  qed
qed

text \<open>When the resolution returns, it returns a map whose IDs the branch rule allows.\<close>

lemma resolve_sound:
  assumes "range_order rng (incoming (adjacencyLists srv None))"
    and "mapCanonicalIDs rng (adjacencyLists srv None) = Some y"
  shows "\<exists>ids. y = Inr ids \<and>
           (\<forall>v c. map_of ids v = Some c \<longrightarrow>
              lineage (outgoing (adjacencyLists srv None)) (roots_of (adjacencyLists srv None)) v c)"
proof (rule rootsLoop_sound)
  from assms(2)
  show "rootsLoop (outgoing (adjacencyLists srv None)) (rng (incoming (adjacencyLists srv None))) []
          = Some y"
    by (simp add: mapCanonicalIDs_def)
next
  fix node
  assume "(node, None) \<in> set (rng (incoming (adjacencyLists srv None)))"
  with range_order_set [OF assms(1)] show "node \<in> roots_of (adjacencyLists srv None)"
    by (simp add: roots_of_def)
qed

lemma resolve_roots:
  assumes "range_order rng (incoming (adjacencyLists srv None))"
    and "mapCanonicalIDs rng (adjacencyLists srv None) = Some (Inr ids)"
    and "v \<in> roots_of (adjacencyLists srv None)"
  shows "v \<in> fst ` set ids"
proof (rule rootsLoop_roots)
  from assms(2)
  show "rootsLoop (outgoing (adjacencyLists srv None)) (rng (incoming (adjacencyLists srv None))) []
          = Some (Inr ids)"
    by (simp add: mapCanonicalIDs_def)
  from assms(3) range_order_set [OF assms(1)]
  show "(v, None) \<in> set (rng (incoming (adjacencyLists srv None)))"
    by (simp add: roots_of_def)
qed

lemma resolve_closed:
  assumes "mapCanonicalIDs rng (adjacencyLists srv None) = Some (Inr ids)"
    and "v \<in> fst ` set ids" and "c \<in> set (children (outgoing (adjacencyLists srv None)) v)"
  shows "c \<in> fst ` set ids"
  using rootsLoop_closed [of "outgoing (adjacencyLists srv None)"
      "rng (incoming (adjacencyLists srv None))" ids] assms
  by (auto simp add: mapCanonicalIDs_def)

text \<open>On a log whose links grow in rank the resolution returns a map with every fingerprint.\<close>

lemma resolve_ranked:
  assumes ro: "range_order rng (incoming (adjacencyLists srv None))"
    and rank: "\<forall>r \<in> set (records srv). previous r \<noteq> [] \<longrightarrow> rk (previous r) < (rk (subject r) :: nat)"
  shows "\<exists>ids. mapCanonicalIDs rng (adjacencyLists srv None) = Some (Inr ids) \<and>
           subjects (records srv) \<union> referenced (records srv) \<subseteq> fst ` set ids"
proof -
  let ?g = "adjacencyLists srv None"
  from resolve_terminates [OF rank] obtain y where
    y: "mapCanonicalIDs rng ?g = Some y"
    unfolding mapCanonicalIDs_def by blast
  from resolve_sound [OF ro y] obtain ids where ids: "y = Inr ids" by blast
  let ?N = "subjects (records srv) \<union> referenced (records srv)"
  have "?N \<subseteq> fst ` set ids"
  proof (rule rootsLoop_total [where rk = rk and es = "rng (incoming ?g)" and out = "outgoing ?g"])
    from y ids show "rootsLoop (outgoing ?g) (rng (incoming ?g)) [] = Some (Inr ids)"
      by (simp add: mapCanonicalIDs_def)
  next
    fix v
    assume v: "v \<in> ?N"
    show "(v, None) \<in> set (rng (incoming ?g)) \<or>
          (\<exists>p \<in> ?N. v \<in> set (children (outgoing ?g) p) \<and> rk p < rk v)"
    proof (cases "v \<in> successors (records srv)")
      case False
      with v have "(v, None) \<in> set (incoming ?g)" by (simp add: roots_graph)
      with range_order_set [OF ro] show ?thesis by simp
    next
      case True
      then obtain r where r: "r \<in> set (records srv)" "previous r \<noteq> []" "subject r = v"
        by (auto simp add: successors_def)
      then have "previous r \<in> ?N" by (auto simp add: referenced_def)
      moreover from record_edge [OF r(1,2)] r(3)
      have "v \<in> set (children (outgoing ?g) (previous r))" by simp
      moreover from rank r have "rk (previous r) < rk v" by auto
      ultimately show ?thesis by blast
    qed
  qed
  with y ids show ?thesis by simp
qed

lemma key_map_of: "k \<in> fst ` set m \<Longrightarrow> \<exists>v. map_of m k = Some v"
  by (cases "map_of m k") (auto simp add: map_of_eq_None_iff)

text \<open>A root keeps its own fingerprint as its ID.\<close>

lemma root_lineage:
  assumes "v \<notin> successors (records srv)"
    and "lineage (outgoing (adjacencyLists srv None)) roots v c"
  shows "c = v"
proof -
  have "v \<notin> set (children (outgoing (adjacencyLists srv None)) p)" for p
    using assms(1) by (auto elim!: edge_record simp add: successors_def)
  with lineage_inv [OF assms(2)] show ?thesis
    by (metis list.set_intros(1,2))
qed

lemma referenced_list: "referenced rs = set (map previous (filter (\<lambda>r. previous r \<noteq> []) rs))"
  by (auto simp add: referenced_def)

lemma successors_list: "successors rs = set (map subject (filter (\<lambda>r. previous r \<noteq> []) rs))"
  by (auto simp add: successors_def)

lemmas log_eval = subjects_def referenced_list successors_list entry_def

text \<open>
  C3, as stated, fails: in \<open>cycle_log\<close> the fingerprints \<open>A\<close> and \<open>B\<close> are each the
  predecessor of the other, so the graph has no root, the resolution visits no node and
  returns the empty map, and the subject \<open>A\<close> is not a key.
\<close>

theorem canonical_ids_not_total:
  "mapCanonicalIDs id (adjacencyLists cycle_log None) = Some (Inr []) \<and>
   ''A'' \<in> subjects (records cycle_log) \<and>
   ''A'' \<notin> fst ` set ([] :: (string, string) gomap)"
  by (simp add: cycle_log_def subjects_def graph_eval walk_eval)

text \<open>
  C3, amended. Let the links of the log form no cycle: some rank of the fingerprints is
  smaller for the previous fingerprint of a record than for its subject. Then, in whatever
  order the loop meets the roots, the resolution returns a map, and every fingerprint
  that is the subject of a record is a key of it.
\<close>

theorem canonical_ids_total:
  assumes "range_order rng (incoming (adjacencyLists srv None))"
    and "\<forall>r \<in> set (records srv). previous r \<noteq> [] \<longrightarrow> rk (previous r) < (rk (subject r) :: nat)"
  shows "\<exists>ids. mapCanonicalIDs rng (adjacencyLists srv None) = Some (Inr ids) \<and>
           subjects (records srv) \<subseteq> fst ` set ids"
  using resolve_ranked [OF assms] by auto

theorem canonical_ids_total_witness:
  "\<exists>ids. mapCanonicalIDs id (adjacencyLists chain_log None) = Some (Inr ids) \<and>
         subjects (records chain_log) \<subseteq> fst ` set ids"
proof -
  have "\<forall>r \<in> set (records chain_log).
          previous r \<noteq> [] \<longrightarrow> sample_rank (previous r) < sample_rank (subject r)"
    by (simp add: chain_log_def entry_def sample_rank_def)
  from canonical_ids_total [OF range_order_id this] show ?thesis .
qed

text \<open>
  C5, as stated, fails in its last part: the root that no record has as its subject is a
  key of the map. In \<open>orphan_log\<close> the fingerprint \<open>?\<close> is only the previous fingerprint
  of \<open>H\<close>, and the map holds it with itself as its ID.
\<close>

theorem unseen_root_is_key:
  "''?'' \<in> referenced (records orphan_log) \<and>
   ''?'' \<notin> subjects (records orphan_log) \<and>
   mapCanonicalIDs id (adjacencyLists orphan_log None)
     = Some (Inr [(''?'', ''?''), (''H'', ''?'')]) \<and>
   map_of [(''?'', ''?''), (''H'', ''?'')] ''?'' = Some ''?''"
  by (simp add: orphan_log_def log_eval graph_eval walk_eval)

lemma descendant_successor:
  assumes "descendant (outgoing (adjacencyLists srv None)) p d"
  shows "d \<in> successors (records srv)"
proof -
  from assms obtain q where "d \<in> set (children (outgoing (adjacencyLists srv None)) q)"
    by (cases rule: descendant.cases) auto
  then obtain r where "r \<in> set (records srv)" "subject r = d" "previous r \<noteq> []"
    by (auto elim: edge_record)
  then show ?thesis by (auto simp add: successors_def)
qed

text \<open>An heir of a root has the root's fingerprint as the only ID the branch rule allows.\<close>

lemma heir_lineage:
  assumes root: "p \<notin> successors (records srv)"
    and "heir srv p d"
    and "lineage (outgoing (adjacencyLists srv None)) (roots_of (adjacencyLists srv None)) d c"
  shows "c = p"
  using assms(2,3)
proof (induction arbitrary: c rule: heir.induct)
  case heir_self
  with root show ?case by (auto dest: root_lineage)
next
  case (heir_first d k ks)
  let ?g = "adjacencyLists srv None"
  have par: "q = d" if "k \<in> set (children (outgoing ?g) q)" for q
    using that heir_first.hyps(3) by (auto elim!: edge_record)
  from heir_first.hyps(2) have "k \<in> set (children (outgoing ?g) d)" by simp
  then have "k \<notin> roots_of ?g" using root_not_child by blast
  with lineage_inv [OF heir_first.prems]
  have "(\<exists>q qs. lineage (outgoing ?g) (roots_of ?g) q c \<and> children (outgoing ?g) q = k # qs) \<or>
        (\<exists>q k' qs. children (outgoing ?g) q = k' # qs \<and> k \<in> set qs)"
    by blast
  then show ?case
  proof (elim disjE exE conjE)
    fix q qs
    assume l: "lineage (outgoing ?g) (roots_of ?g) q c" and "children (outgoing ?g) q = k # qs"
    then have "q = d" using par [of q] by simp
    with l heir_first.IH show ?thesis by simp
  next
    fix q k' qs
    assume ch: "children (outgoing ?g) q = k' # qs" and m: "k \<in> set qs"
    then have "q = d" using par [of q] by simp
    with ch heir_first.hyps(2) m distinct_children_graph [of srv d] show ?thesis by simp
  qed
qed

text \<open>
  Below a root whose descendants have one predecessor each, the branch rule allows, for
  the root and for a descendant, the root's fingerprint or the fingerprint of a descendant.
\<close>

lemma lineage_below:
  assumes root: "p \<notin> successors (records srv)"
    and sole: "sole_below srv p"
    and "lineage (outgoing (adjacencyLists srv None)) roots v c"
    and "v = p \<or> descendant (outgoing (adjacencyLists srv None)) p v"
  shows "c = p \<or> descendant (outgoing (adjacencyLists srv None)) p c"
  using assms(3,4)
proof (induction rule: lineage.induct)
  case (root v)
  then show ?case by simp
next
  case (first q c k ks)
  let ?out = "outgoing (adjacencyLists srv None)"
  have kq: "k \<in> set (children ?out q)" using first.hyps(2) by simp
  then obtain r where r: "r \<in> set (records srv)" "subject r = k" "previous r = q" "q \<noteq> []"
    by (rule edge_record)
  then have ks: "k \<in> successors (records srv)" by (auto simp add: successors_def)
  with root first.prems have dk: "descendant ?out p k" by auto
  then obtain q' where q': "k \<in> set (children ?out q')" "q' = p \<or> descendant ?out p q'"
    by (cases rule: descendant.cases) auto
  from q'(1) obtain r' where r': "r' \<in> set (records srv)" "subject r' = k" "previous r' = q'"
    "q' \<noteq> []"
    by (rule edge_record)
  from sole r(1) r'(1)
  have "descendant ?out p (subject r) \<and> subject r = subject r' \<and> previous r \<noteq> [] \<and>
        previous r' \<noteq> [] \<longrightarrow> previous r = previous r'"
    unfolding sole_below_def by blast
  with r r' dk have "q = q'" by simp
  with q'(2) first.IH show ?case by simp
next
  case (branch q c k ks z)
  then show ?case by auto
qed

text \<open>
  C5, amended. Let the links of the log form no cycle (a rank grows from the previous
  fingerprint of a record to its subject), and let a fingerprint be named by some record
  as its previous fingerprint and be the subject of no record. Then the fingerprint is a
  root: its entry in the incoming map is nil. In whatever order the loop meets the roots,
  the resolution returns a map in which the fingerprint is a key with itself as its ID and
  in which every descendant of the fingerprint is a key. Every heir of the fingerprint,
  that is every descendant reached from it through first successors that no record gives
  another predecessor, has the fingerprint as its ID; and when no descendant has two
  different predecessors, the ID of every descendant is the fingerprint or the fingerprint
  of a descendant.
\<close>

theorem unseen_root_resolved:
  assumes ro: "range_order rng (incoming (adjacencyLists srv None))"
    and rank: "\<forall>r \<in> set (records srv). previous r \<noteq> [] \<longrightarrow> rk (previous r) < (rk (subject r) :: nat)"
    and ref: "p \<in> referenced (records srv)"
    and unseen: "p \<notin> subjects (records srv)"
  shows "(p, None) \<in> set (incoming (adjacencyLists srv None)) \<and>
         (\<exists>ids. mapCanonicalIDs rng (adjacencyLists srv None) = Some (Inr ids) \<and>
            map_of ids p = Some p \<and>
            (\<forall>d. descendant (outgoing (adjacencyLists srv None)) p d \<longrightarrow> map_of ids d \<noteq> None) \<and>
            (\<forall>d. heir srv p d \<longrightarrow> map_of ids d = Some p) \<and>
            (sole_below srv p \<longrightarrow>
               (\<forall>d. descendant (outgoing (adjacencyLists srv None)) p d \<longrightarrow>
                  (\<exists>c. map_of ids d = Some c \<and>
                       (c = p \<or> descendant (outgoing (adjacencyLists srv None)) p c)))))"
proof -
  let ?g = "adjacencyLists srv None"
  have ns: "p \<notin> successors (records srv)"
    using unseen by (auto simp add: successors_def subjects_def)
  with ref have root: "(p, None) \<in> set (incoming ?g)" by (simp add: roots_graph)
  from resolve_ranked [OF ro rank] obtain ids where
    run: "mapCanonicalIDs rng ?g = Some (Inr ids)"
    and all: "subjects (records srv) \<union> referenced (records srv) \<subseteq> fst ` set ids"
    by blast
  from resolve_sound [OF ro run]
  have sound: "\<And>v c. map_of ids v = Some c \<Longrightarrow> lineage (outgoing ?g) (roots_of ?g) v c"
    by simp
  have key: "\<exists>c. map_of ids v = Some c"
    if "v \<in> subjects (records srv) \<union> referenced (records srv)" for v
  proof -
    from that all have "v \<in> fst ` set ids" by blast
    then show ?thesis by (rule key_map_of)
  qed
  have dkey: "\<exists>c. map_of ids d = Some c" if "descendant (outgoing ?g) p d" for d
  proof -
    from descendant_successor [OF that] have "d \<in> subjects (records srv)"
      by (auto simp add: successors_def subjects_def)
    then show ?thesis by (simp add: key)
  qed
  have hkey: "\<exists>c. map_of ids d = Some c" if "heir srv p d" for d
    using that
  proof (cases rule: heir.cases)
    case heir_self
    with ref key [of p] show ?thesis by simp
  next
    case (heir_first d' ks)
    then have "d \<in> set (children (outgoing ?g) d')" by simp
    then have "d \<in> subjects (records srv)" by (auto elim!: edge_record simp add: subjects_def)
    then show ?thesis by (simp add: key)
  qed
  have heirs: "map_of ids d = Some p" if "heir srv p d" for d
  proof -
    from hkey [OF that] obtain c where c: "map_of ids d = Some c" by blast
    from heir_lineage [OF ns that sound [OF c]] c show ?thesis by simp
  qed
  have below: "\<exists>c. map_of ids d = Some c \<and> (c = p \<or> descendant (outgoing ?g) p c)"
    if "sole_below srv p" and d: "descendant (outgoing ?g) p d" for d
  proof -
    from dkey [OF d] obtain c where c: "map_of ids d = Some c" by blast
    from lineage_below [OF ns that(1) sound [OF c]] d c show ?thesis by simp
  qed
  from heirs [OF heir.heir_self] have pp: "map_of ids p = Some p" .
  from dkey have dk: "\<forall>d. descendant (outgoing ?g) p d \<longrightarrow> map_of ids d \<noteq> None" by auto
  from root run pp dk heirs below show ?thesis by blast
qed

lemma test_rank_values:
  "test_rank ''?'' = 0" "test_rank ''H'' = 1" "test_rank ''I'' = 2"
  by (simp_all add: test_rank_def index_def)

theorem unseen_root_resolved_witness:
  "(''?'', None) \<in> set (incoming (adjacencyLists unseen_log None)) \<and>
   descendant (outgoing (adjacencyLists unseen_log None)) ''?'' ''I'' \<and>
   heir unseen_log ''?'' ''I'' \<and>
   sole_below unseen_log ''?'' \<and>
   (\<exists>ids. mapCanonicalIDs id (adjacencyLists unseen_log None) = Some (Inr ids) \<and>
      map_of ids ''?'' = Some ''?'' \<and> map_of ids ''H'' = Some ''?'' \<and>
      map_of ids ''I'' = Some ''?'')"
proof -
  let ?out = "outgoing (adjacencyLists unseen_log None)"
  have rank: "\<forall>r \<in> set (records unseen_log).
      previous r \<noteq> [] \<longrightarrow> test_rank (previous r) < test_rank (subject r)"
    by (simp add: unseen_log_def entry_def test_rank_values)
  have ref: "''?'' \<in> referenced (records unseen_log)"
    by (simp add: unseen_log_def log_eval)
  have unseen: "''?'' \<notin> subjects (records unseen_log)"
    by (simp add: unseen_log_def log_eval)
  have ch: "children ?out ''?'' = [''H'']" "children ?out ''H'' = [''I'']"
    by (simp_all add: children_graph kids_step_def unseen_log_def entry_def)
  have h: "heir unseen_log ''?'' ''H''"
    by (rule heir.heir_first [OF heir.heir_self ch(1)]) (simp add: unseen_log_def entry_def)
  have i: "heir unseen_log ''?'' ''I''"
    by (rule heir.heir_first [OF h ch(2)]) (simp add: unseen_log_def entry_def)
  have "descendant ?out ''?'' ''H''" by (rule descendant.child) (simp add: ch)
  then have d: "descendant ?out ''?'' ''I''" by (rule descendant.below) (simp add: ch)
  have s: "sole_below unseen_log ''?''"
    by (simp add: sole_below_def unseen_log_def entry_def)
  from unseen_root_resolved [OF range_order_id rank ref unseen] h i d s show ?thesis by blast
qed

text \<open>
  C4, as stated, fails: in \<open>shared_log\<close> the fingerprint \<open>X\<close> gets its edge to \<open>Y\<close>
  first and its edge to \<open>Z\<close> second, but \<open>Z\<close> is also the first successor of \<open>W\<close>. The
  loop meets the root \<open>W\<close> after the root \<open>X\<close> and overwrites the ID of \<open>Z\<close> with \<open>W\<close>.
\<close>

theorem branch_rule_fails_shared:
  "children (outgoing (adjacencyLists shared_log None)) ''X'' = [''Y'', ''Z''] \<and>
   mapCanonicalIDs id (adjacencyLists shared_log None)
     = Some (Inr [(''X'', ''X''), (''Z'', ''W''), (''Y'', ''X''), (''W'', ''W'')]) \<and>
   map_of [(''X'', ''X''), (''Z'', ''W''), (''Y'', ''X''), (''W'', ''W'')] ''Z'' = Some ''W''"
proof (intro conjI)
  show "children (outgoing (adjacencyLists shared_log None)) ''X'' = [''Y'', ''Z'']"
    by (simp add: children_graph kids_step_def shared_log_def entry_def)
  show "mapCanonicalIDs id (adjacencyLists shared_log None)
     = Some (Inr [(''X'', ''X''), (''Z'', ''W''), (''Y'', ''X''), (''W'', ''W'')])"
    by (simp add: shared_log_def graph_eval walk_eval)
  show "map_of [(''X'', ''X''), (''Z'', ''W''), (''Y'', ''X''), (''W'', ''W'')] ''Z'' = Some ''W''"
    by simp
qed

text \<open>
  C4, amended. Let the links of the log form a forest: no cycle (a rank grows from the
  previous fingerprint of a record to its subject) and no fingerprint with two different
  predecessors. Let the first record that names \<open>X\<close> as its previous fingerprint have the
  subject \<open>Y\<close>, and let a later record that names \<open>X\<close> have another subject \<open>Z\<close>. Then,
  in whatever order the loop meets the roots, the resolution returns a map in which \<open>Y\<close>
  has the ID of \<open>X\<close> and \<open>Z\<close> has the ID \<open>Z\<close>.
\<close>

theorem branch_rule_forest:
  assumes ro: "range_order rng (incoming (adjacencyLists srv None))"
    and rank: "\<forall>r \<in> set (records srv). previous r \<noteq> [] \<longrightarrow> rk (previous r) < (rk (subject r) :: nat)"
    and single: "\<forall>r \<in> set (records srv). \<forall>r' \<in> set (records srv).
                   subject r = subject r' \<and> previous r \<noteq> [] \<and> previous r' \<noteq> [] \<longrightarrow>
                   previous r = previous r'"
    and split: "records srv = rs1 @ rY # rs2"
    and first: "\<forall>r \<in> set rs1. previous r \<noteq> previous rY"
    and link: "previous rY \<noteq> []"
    and later: "rZ \<in> set rs2" "previous rZ = previous rY" "subject rZ \<noteq> subject rY"
  shows "\<exists>ids c. mapCanonicalIDs rng (adjacencyLists srv None) = Some (Inr ids) \<and>
           map_of ids (previous rY) = Some c \<and>
           map_of ids (subject rY) = Some c \<and>
           map_of ids (subject rZ) = Some (subject rZ)"
proof -
  let ?g = "adjacencyLists srv None"
  let ?X = "previous rY" and ?Y = "subject rY" and ?Z = "subject rZ"
  from resolve_ranked [OF ro rank] obtain ids where
    run: "mapCanonicalIDs rng ?g = Some (Inr ids)"
    and all: "subjects (records srv) \<union> referenced (records srv) \<subseteq> fst ` set ids"
    by blast
  from resolve_sound [OF ro run]
  have sound: "\<And>v c. map_of ids v = Some c \<Longrightarrow> lineage (outgoing ?g) (roots_of ?g) v c"
    by simp
  have rY: "rY \<in> set (records srv)" and rZ: "rZ \<in> set (records srv)"
    using split later(1) by simp_all
  from rY link have "?X \<in> referenced (records srv)" by (auto simp add: referenced_def)
  with all have "?X \<in> fst ` set ids" by blast
  from key_map_of [OF this] obtain cX where cX: "map_of ids ?X = Some cX" by blast
  from rY have "?Y \<in> subjects (records srv)" by (simp add: subjects_def)
  with all have "?Y \<in> fst ` set ids" by blast
  from key_map_of [OF this] obtain cY where cY: "map_of ids ?Y = Some cY" by blast
  from rZ have "?Z \<in> subjects (records srv)" by (simp add: subjects_def)
  with all have "?Z \<in> fst ` set ids" by blast
  from key_map_of [OF this] obtain cZ where cZ: "map_of ids ?Z = Some cZ" by blast
  from first_child_graph [OF split first link] obtain ks where
    ch: "children (outgoing ?g) ?X = ?Y # ks" by blast
  from record_edge [OF rZ] later(2) link have "?Z \<in> set (children (outgoing ?g) ?X)" by simp
  with ch later(3) have zk: "?Z \<in> set ks" by simp
  have dis: "distinct (children (outgoing ?g) p)" for p by (rule distinct_children_graph)
  have uni: "p = p'"
    if "k \<in> set (children (outgoing ?g) p)" and "k \<in> set (children (outgoing ?g) p')" for k p p'
  proof -
    from that(1) obtain r where r: "r \<in> set (records srv)" "subject r = k" "previous r = p" "p \<noteq> []"
      by (rule edge_record)
    from that(2) obtain r' where r': "r' \<in> set (records srv)" "subject r' = k" "previous r' = p'"
      "p' \<noteq> []"
      by (rule edge_record)
    from single r(1) r'(1)
    have "subject r = subject r' \<and> previous r \<noteq> [] \<and> previous r' \<noteq> [] \<longrightarrow>
          previous r = previous r'" by blast
    with r r' show ?thesis by simp
  qed
  have top: "v \<notin> set (children (outgoing ?g) p)" if "v \<in> roots_of ?g" for v p
    using that by (rule root_not_child)
  have one: "c = c'"
    if "lineage (outgoing ?g) (roots_of ?g) v c" and "lineage (outgoing ?g) (roots_of ?g) v c'"
    for v c c'
  proof (rule lineage_fun [where out = "outgoing ?g" and roots = "roots_of ?g" and v = v])
    show "distinct (children (outgoing ?g) p)" for p by (rule dis)
    show "p = p'"
      if "k \<in> set (children (outgoing ?g) p)" and "k \<in> set (children (outgoing ?g) p')"
      for k p p'
      using that by (rule uni)
    show "v \<notin> set (children (outgoing ?g) p)" if "v \<in> roots_of ?g" for v p
      using that by (rule top)
    show "lineage (outgoing ?g) (roots_of ?g) v c" by (rule that(1))
    show "lineage (outgoing ?g) (roots_of ?g) v c'" by (rule that(2))
  qed
  note lX = sound [OF cX]
  from one [OF sound [OF cY] lineage.first [OF lX ch]]
  have "cY = cX" .
  moreover from one [OF sound [OF cZ] lineage.branch [OF lX ch zk]]
  have "cZ = ?Z" .
  ultimately show ?thesis using run cX cY cZ by simp
qed

theorem branch_rule_forest_witness:
  "\<exists>ids c. mapCanonicalIDs id (adjacencyLists forest_log None) = Some (Inr ids) \<and>
     map_of ids ''X'' = Some c \<and> map_of ids ''Y'' = Some c \<and> map_of ids ''Z'' = Some ''Z''"
proof -
  have rank: "\<forall>r \<in> set (records forest_log).
      previous r \<noteq> [] \<longrightarrow> sample_rank (previous r) < sample_rank (subject r)"
    by (simp add: forest_log_def entry_def sample_rank_def)
  have single: "\<forall>r \<in> set (records forest_log). \<forall>r' \<in> set (records forest_log).
      subject r = subject r' \<and> previous r \<noteq> [] \<and> previous r' \<noteq> [] \<longrightarrow> previous r = previous r'"
    by (simp add: forest_log_def entry_def)
  have split: "records forest_log = [entry [] ''X'' 1] @ entry ''X'' ''Y'' 1 # [entry ''X'' ''Z'' 2]"
    by (simp add: forest_log_def)
  have first: "\<forall>r \<in> set [entry [] ''X'' 1]. previous r \<noteq> previous (entry ''X'' ''Y'' 1)"
    by (simp add: entry_def)
  have link: "previous (entry ''X'' ''Y'' 1) \<noteq> []" by (simp add: entry_def)
  have later: "entry ''X'' ''Z'' 2 \<in> set [entry ''X'' ''Z'' 2]"
    "previous (entry ''X'' ''Z'' 2) = previous (entry ''X'' ''Y'' 1)"
    "subject (entry ''X'' ''Z'' 2) \<noteq> subject (entry ''X'' ''Y'' 1)"
    by (simp_all add: entry_def)
  from branch_rule_forest [OF range_order_id rank single split first link later]
  show ?thesis by (simp add: entry_def)
qed

section \<open>Cycles\<close>



text \<open>A loop whose pending work can never become empty does not end.\<close>

lemma traverse_diverges:
  assumes sync: "length (elems ids) = Suc (length (elems nodes))"
    and inv: "J (pending n nodes ids)"
    and step: "\<And>P n i. J (P @ [(n, i)]) \<Longrightarrow> J (P @ expand out (n, i))"
    and none: "\<not> J []"
  shows "traverse out n nodes ids result = None"
proof (cases "traverse out n nodes ids result")
  case None
  then show ?thesis .
next
  case (Some y)
  let ?I = "\<lambda>(P :: (string \<times> string) list) (res :: (string, string) gomap). J P"
  have "\<exists>r. y = Inr r \<and> ?I [] r"
    by (rule traverse_rule [where I = ?I, OF Some sync inv]) (rule step)
  with none show ?thesis by simp
qed

lemma rootsLoop_diverges:
  assumes "(node, None) \<in> set es"
    and "\<And>result. traverse out node \<lparr>elems = []\<rparr> (push node \<lparr>elems = []\<rparr>) result = None"
  shows "rootsLoop out es result = None"
  using assms(1)
proof (induction es arbitrary: result)
  case Nil
  then show ?case by simp
next
  case (Cons e es)
  obtain node' edges where e: "e = (node', edges)" by (cases e)
  show ?case
  proof (cases "e = (node, None)")
    case True
    with assms(2) show ?thesis by simp
  next
    case False
    with Cons.prems have rest: "rootsLoop out es res = None" for res
      by (auto intro: Cons.IH)
    show ?thesis
    proof (cases edges)
      case (Some st)
      with e rest show ?thesis by simp
    next
      case None
      show ?thesis
      proof (cases "traverse out node' \<lparr>elems = []\<rparr> (push node' \<lparr>elems = []\<rparr>) result")
        case None
        with e \<open>edges = None\<close> show ?thesis by simp
      next
        case (Some y1)
        let ?I = "\<lambda>(P :: (string \<times> string) list) (res :: (string, string) gomap). True"
        have "\<exists>r. y1 = Inr r \<and> ?I [] r"
          by (rule traverse_root_rule [where I = ?I, OF Some]) simp_all
        then obtain r1 where "y1 = Inr r1" by blast
        with e \<open>edges = None\<close> Some rest show ?thesis by simp
      qed
    qed
  qed
qed




section \<open>The tests of the repository\<close>

text \<open>The model gives the values the three tests of the repository expect.\<close>

declare traverse.simps [code]

lemma TestCountingClients: "TotalClients populateServer = 6"
  by code_simp

lemma TestCountingClientsSince: "RecentClients populateServer 2 = 3"
  by code_simp

lemma TestCountOperations:
  "OperationsByClient id populateServer =
     Some (Inr [(''A'', [(''op'', 9)]), (''E'', [(''op'', 1)]), (''F'', [(''op'', 3)]),
                (''M'', [(''op'', 1)]), (''?'', [(''op'', 1)]), (''J'', [(''op'', 2)])])"
  by code_simp

section \<open>The totals of the operations\<close>

lemma test_rank_table:
  "test_rank [] = 0" "test_rank ''A'' = 0" "test_rank ''B'' = 1" "test_rank ''C'' = 2"
  "test_rank ''D'' = 3" "test_rank ''K'' = 4" "test_rank ''E'' = 4" "test_rank ''F'' = 2"
  "test_rank ''G'' = 3" "test_rank ''L'' = 4" "test_rank ''M'' = 4" "test_rank ''J'' = 0"
  by (simp_all add: test_rank_def index_def)

text \<open>
  C6, as stated, fails: it speaks of the IDs present in the result of
  \<open>OperationsByClient\<close> for every log, and there are logs for which the query has no
  result. In \<open>self_loop_log\<close> the root \<open>R\<close> leads to \<open>B\<close> and \<open>B\<close> is its own
  successor, so the traversal never ends and \<open>OperationsByClient\<close> returns nothing.
\<close>

theorem OperationsByClient_no_result:
  "OperationsByClient id self_loop_log = None"
proof -
  let ?out = "outgoing (adjacencyLists self_loop_log None)"
  let ?J = "\<lambda>P :: (string \<times> string) list. P \<noteq> [] \<and> fst ` set P \<subseteq> {''R'', ''B''}"
  have ch: "children ?out ''R'' = [''B'']" "children ?out ''B'' = [''B'']"
    by (simp_all add: children_graph kids_step_def self_loop_log_def entry_def)
  have div: "traverse ?out ''R'' \<lparr>elems = []\<rparr> (push ''R'' \<lparr>elems = []\<rparr>) result = None"
    for result
  proof (rule traverse_diverges [where J = ?J, OF sync_root])
    show "?J (pending ''R'' \<lparr>elems = []\<rparr> (push ''R'' \<lparr>elems = []\<rparr>))"
      by (simp add: pending_root)
  next
    fix P :: "(string \<times> string) list" and n i
    assume "?J (P @ [(n, i)])"
    then have P: "fst ` set P \<subseteq> {''R'', ''B''}" and "n = ''R'' \<or> n = ''B''"
      by auto
    from this(2) have "expand ?out (n, i) = [(''B'', i)]"
      by (auto simp add: expand_def ch inherit_def)
    with P show "?J (P @ expand ?out (n, i))" by auto
  next
    show "\<not> ?J []" by simp
  qed
  have "(''R'', None) \<in> set (incoming (adjacencyLists self_loop_log None))"
    by (simp add: roots_graph self_loop_log_def log_eval)
  then have "(''R'', None) \<in> set (id (incoming (adjacencyLists self_loop_log None)))" by simp
  from rootsLoop_diverges [OF this div]
  have "mapCanonicalIDs id (adjacencyLists self_loop_log None) = None"
    by (simp add: mapCanonicalIDs_def)
  then show ?thesis by (simp add: OperationsByClient_def)
qed

text \<open>
  C6, amended. Let the links of the log form no cycle: some rank of the fingerprints is
  smaller for the previous fingerprint of a record than for its subject. Then, in whatever
  order the loop meets the roots, the canonical IDs are resolved and \<open>OperationsByClient\<close>
  returns a map. The keys of the map are the IDs that the subjects of the records
  resolve to, and for every ID the counts of its operations add up to the number of
  records whose subject resolves to it.
\<close>

theorem OperationsByClient_totals:
  assumes "range_order rng (incoming (adjacencyLists srv None))"
    and "\<forall>r \<in> set (records srv). previous r \<noteq> [] \<longrightarrow> rk (previous r) < (rk (subject r) :: nat)"
  shows "\<exists>canonicalIDs result.
           mapCanonicalIDs rng (adjacencyLists srv None) = Some (Inr canonicalIDs) \<and>
           OperationsByClient rng srv = Some (Inr result) \<and>
           subjects (records srv) \<subseteq> fst ` set canonicalIDs \<and>
           fst ` set result = (\<lambda>r. index [] canonicalIDs (subject r)) ` set (records srv) \<and>
           (\<forall>c. client_total result c =
                  int (length (filter (\<lambda>r. index [] canonicalIDs (subject r) = c)
                                 (records srv))))"
proof -
  from resolve_ranked [OF assms] obtain canonicalIDs where
    ids: "mapCanonicalIDs rng (adjacencyLists srv None) = Some (Inr canonicalIDs)"
    and all: "subjects (records srv) \<subseteq> fst ` set canonicalIDs"
    by auto
  let ?result = "foldl (tally canonicalIDs) [] (records srv)"
  from ids have res: "OperationsByClient rng srv = Some (Inr ?result)"
    by (simp add: OperationsByClient_def)
  have zero: "client_total [] c = 0" for c
    by (simp add: client_total_def index_Nil)
  have keys: "fst ` set ?result = (\<lambda>r. index [] canonicalIDs (subject r)) ` set (records srv)"
    by (simp add: keys_foldl_tally)
  have sums: "\<forall>c. client_total ?result c =
      int (length (filter (\<lambda>r. index [] canonicalIDs (subject r) = c) (records srv)))"
    by (simp add: client_total_foldl zero)
  from ids res all keys sums show ?thesis by blast
qed

theorem OperationsByClient_totals_witness:
  "\<exists>canonicalIDs.
     mapCanonicalIDs id (adjacencyLists populateServer None) = Some (Inr canonicalIDs) \<and>
     OperationsByClient id populateServer =
       Some (Inr [(''A'', [(''op'', 9)]), (''E'', [(''op'', 1)]), (''F'', [(''op'', 3)]),
                  (''M'', [(''op'', 1)]), (''?'', [(''op'', 1)]), (''J'', [(''op'', 2)])]) \<and>
     client_total [(''A'', [(''op'', 9)]), (''E'', [(''op'', 1)]), (''F'', [(''op'', 3)]),
                   (''M'', [(''op'', 1)]), (''?'', [(''op'', 1)]), (''J'', [(''op'', 2)])] ''A'' =
       int (length (filter (\<lambda>r. index [] canonicalIDs (subject r) = ''A'')
                      (records populateServer)))"
proof -
  have rank: "\<forall>r \<in> set (records populateServer).
      previous r \<noteq> [] \<longrightarrow> test_rank (previous r) < test_rank (subject r)"
    by (simp add: populateServer_def entry_def test_rank_table test_rank_values)
  have run: "OperationsByClient id populateServer =
       Some (Inr [(''A'', [(''op'', 9)]), (''E'', [(''op'', 1)]), (''F'', [(''op'', 3)]),
                  (''M'', [(''op'', 1)]), (''?'', [(''op'', 1)]), (''J'', [(''op'', 2)])])"
    by (rule TestCountOperations)
  from OperationsByClient_totals [OF range_order_id rank] obtain canonicalIDs result where
    a: "mapCanonicalIDs id (adjacencyLists populateServer None) = Some (Inr canonicalIDs)"
    and b: "OperationsByClient id populateServer = Some (Inr result)"
    and c: "\<forall>c. client_total result c =
                  int (length (filter (\<lambda>r. index [] canonicalIDs (subject r) = c)
                                 (records populateServer)))"
    by blast
  from b run have r: "result = [(''A'', [(''op'', 9)]), (''E'', [(''op'', 1)]),
      (''F'', [(''op'', 3)]), (''M'', [(''op'', 1)]), (''?'', [(''op'', 1)]), (''J'', [(''op'', 2)])]"
    by simp
  from c have "client_total result ''A'' =
      int (length (filter (\<lambda>r. index [] canonicalIDs (subject r) = ''A'') (records populateServer)))"
    by (rule spec)
  with a run show ?thesis unfolding r by blast
qed

end
